theory Spec2Isabelle
  imports Complex_Main
begin

text \<open>
  A shallow embedding of \<^verbatim>\<open>owmidiparser.js\<close>, which converts a parsed MIDI object into
  Overwatch workshop rules.  A JavaScript number is modelled as an exact rational: the
  rounding errors of IEEE doubles are left out, except in the two loops of
  \<^verbatim>\<open>transposePitch\<close>, which are also modelled on doubles.  A value that may be
  \<^verbatim>\<open>undefined\<close> is an option, with \<open>None\<close> for \<^verbatim>\<open>undefined\<close>.
\<close>

section \<open>Constants of the converter\<close>

type_synonym number = rat

text \<open>Range of notes on the piano, on the MIDI scale; one integer is one semitone.\<close>

definition PIANO_MIN :: int where
  "PIANO_MIN = 24"

definition PIANO_MAX :: int where
  "PIANO_MAX = 88"

definition OCTAVE :: int where
  "OCTAVE = 12"

text \<open>
  \<^verbatim>\<open>CONVERTER_SETTINGS_INFO\<close>: for each settings key its minimum, its maximum (\<open>None\<close>
  stands for \<^verbatim>\<open>Infinity\<close>) and its default.
\<close>

definition CONVERTER_SETTINGS_INFO :: "(string \<times> number \<times> number option \<times> number) list" where
  "CONVERTER_SETTINGS_INFO =
     [(''startTime'', 0, None, 0),
      (''voices'', 6, Some 11, 6)]"

text \<open>
  A settings object: its own keys in order, each with its value.  Only numeric values are
  modelled.
\<close>

type_synonym settings = "(string \<times> number) list"

definition setting_default :: "string \<Rightarrow> number" where
  "setting_default k =
     (case map_of CONVERTER_SETTINGS_INFO k of Some (lo, hi, d) \<Rightarrow> d | None \<Rightarrow> 0)"

definition DEFAULT_SETTINGS :: settings where
  "DEFAULT_SETTINGS =
     [(''startTime'', setting_default ''startTime''),
      (''voices'', setting_default ''voices'')]"

definition MAX_OW_ARRAY_SIZE :: nat where
  "MAX_OW_ARRAY_SIZE = 999"

definition MAX_TOTAL_ARRAY_ELEMENTS :: nat where
  "MAX_TOTAL_ARRAY_ELEMENTS = 9000"

definition NOTE_PRECISION :: nat where
  "NOTE_PRECISION = 3"

definition MAX_TIME_INTERVAL :: number where
  "MAX_TIME_INTERVAL = 9999"

definition TYPE_0_FILE :: string where
  "TYPE_0_FILE =
     ''WARNING: The processed file is a type 0 file and may have been converted incorrectly.\<newline>''"

definition NO_NOTES_FOUND :: string where
  "NO_NOTES_FOUND = ''Error: no notes found in MIDI file in the given time range.\<newline>''"

text \<open>\<^verbatim>\<open>SONG_DATA_ELEMENT_LENGTHS\<close>: digits per element of each array when compression is used.\<close>

definition SONG_DATA_ELEMENT_LENGTHS :: "(string \<times> nat) list" where
  "SONG_DATA_ELEMENT_LENGTHS =
     [(''pitchArrays'', 2),
      (''timeArrays'', 4),
      (''chordArrays'', 1)]"

definition element_length :: "string \<Rightarrow> nat" where
  "element_length arrayName =
     (case map_of SONG_DATA_ELEMENT_LENGTHS arrayName of Some w \<Rightarrow> w | None \<Rightarrow> 0)"

definition COMPRESSED_ELEMENT_LENGTH :: nat where
  "COMPRESSED_ELEMENT_LENGTH = 7"

section \<open>Numbers and strings of the language\<close>

text \<open>\<^verbatim>\<open>Math.round\<close> rounds to the nearest integer, a half upwards.\<close>

definition math_round :: "number \<Rightarrow> int" where
  "math_round x = \<lfloor>x + 1 / 2\<rfloor>"

definition roundToPlaces :: "number \<Rightarrow> nat \<Rightarrow> number" where
  "roundToPlaces v decimalPlaces =
     of_int (math_round (v * 10 ^ decimalPlaces)) / 10 ^ decimalPlaces"

text \<open>A comparison \<^verbatim>\<open>x < y\<close> in which \<open>y\<close> may be \<^verbatim>\<open>undefined\<close>: it is then false.\<close>

fun less_than :: "number \<Rightarrow> number option \<Rightarrow> bool" where
  "less_than x None = False"
| "less_than x (Some y) = (x < y)"

text \<open>
  \<^verbatim>\<open>toString\<close> of a number: the decimal digits of its integer part and, when it is not an
  integer, a point and the digits of its fraction (a fraction that does not end is cut
  after 20 digits; the exponent notation of very large and very small numbers is left out).
\<close>

definition digit_char :: "nat \<Rightarrow> char" where
  "digit_char d = ''0123456789'' ! (d mod 10)"

fun digits :: "nat \<Rightarrow> string" where
  "digits n = (if n < 10 then [digit_char n] else digits (n div 10) @ [digit_char (n mod 10)])"

declare digits.simps [simp del]

fun frac_digits :: "nat \<Rightarrow> number \<Rightarrow> string" where
  "frac_digits 0 f = []"
| "frac_digits (Suc k) f =
     (if f = 0 then []
      else digit_char (nat \<lfloor>f * 10\<rfloor>) # frac_digits k (f * 10 - of_int \<lfloor>f * 10\<rfloor>))"

definition number_toString :: "number \<Rightarrow> string" where
  "number_toString x =
     (let whole = \<lfloor>\<bar>x\<bar>\<rfloor>; f = \<bar>x\<bar> - of_int whole
      in (if x < 0 then ''-'' else []) @ digits (nat whole) @
         (if f = 0 then [] else ''.'' @ frac_digits 20 f))"

text \<open>Interpolation of a value that may be \<^verbatim>\<open>undefined\<close> into a template string.\<close>

fun value_text :: "number option \<Rightarrow> string" where
  "value_text None = ''undefined''"
| "value_text (Some x) = number_toString x"

definition padStart :: "nat \<Rightarrow> string \<Rightarrow> string" where
  "padStart targetLength s = replicate (targetLength - length s) CHR ''0'' @ s"

definition slice :: "string \<Rightarrow> nat \<Rightarrow> nat \<Rightarrow> string" where
  "slice s i j = take (j - i) (drop i s)"

text \<open>Strings are compared by their code units, a proper prefix first.\<close>

fun string_less :: "string \<Rightarrow> string \<Rightarrow> bool" where
  "string_less [] [] = False"
| "string_less [] (y # ys) = True"
| "string_less (x # xs) [] = False"
| "string_less (x # xs) (y # ys) =
     ((of_char x :: nat) < of_char y \<or> (x = y \<and> string_less xs ys))"

text \<open>
  \<^verbatim>\<open>Array.prototype.sort\<close> is stable; with a comparator, \<open>x\<close> goes after \<open>y\<close> when the
  comparator's value on \<open>(x, y)\<close> is positive.  It is modelled as an insertion sort.  Without
  a comparator the elements are compared as strings.
\<close>

fun insert_by :: "('a \<Rightarrow> 'a \<Rightarrow> number) \<Rightarrow> 'a \<Rightarrow> 'a list \<Rightarrow> 'a list" where
  "insert_by cmp x [] = [x]"
| "insert_by cmp x (y # ys) = (if cmp x y > 0 then y # insert_by cmp x ys else x # y # ys)"

fun sort_by :: "('a \<Rightarrow> 'a \<Rightarrow> number) \<Rightarrow> 'a list \<Rightarrow> 'a list" where
  "sort_by cmp [] = []"
| "sort_by cmp (x # xs) = insert_by cmp x (sort_by cmp xs)"

definition default_compare :: "int \<Rightarrow> int \<Rightarrow> number" where
  "default_compare x y =
     (let sx = number_toString (of_int x); sy = number_toString (of_int y)
      in if string_less sx sy then - 1 else if string_less sy sx then 1 else 0)"

definition sort_default :: "int list \<Rightarrow> int list" where
  "sort_default xs = sort_by default_compare xs"

section \<open>Transposition\<close>

text \<open>
  \<^verbatim>\<open>transposePitch\<close> is two loops in sequence: the first raises the pitch by octaves while
  it is below the range, the second lowers it by octaves while it is above.  The pitch is a
  double, and so is every sum and difference in the loops: an integer that no double holds
  is rounded to the nearest double, a tie to the double with the even significand.  A double
  has 53 significant bits.  The argument is taken to be an integer that is a double; the
  loops move it towards the range, so that no result leaves the finite doubles.
\<close>

function bit_length :: "int \<Rightarrow> nat" where
  "bit_length n = (if n \<le> 0 then 0 else Suc (bit_length (n div 2)))"
  by pat_completeness auto
termination
  by (relation "measure nat") auto

declare bit_length.simps [simp del]

definition round_to_double :: "int \<Rightarrow> int" where
  "round_to_double n =
     (let a = \<bar>n\<bar>;
          u = 2 ^ (bit_length a - 53);
          q = a div u;
          r = a mod u;
          q' = (if 2 * r < u \<or> (2 * r = u \<and> even q) then q else q + 1)
      in sgn n * (q' * u))"

text \<open>
  A loop on doubles need not end.  Each loop is a partial function: the value \<open>None\<close> stands
  for a loop that never ends.
\<close>

partial_function (option) raise_loop :: "int \<Rightarrow> int option" where
  "raise_loop pitch =
     (if pitch < PIANO_MIN then raise_loop (round_to_double (pitch + OCTAVE)) else Some pitch)"

partial_function (option) lower_loop :: "int \<Rightarrow> int option" where
  "lower_loop pitch =
     (if pitch > PIANO_MAX then lower_loop (round_to_double (pitch - OCTAVE)) else Some pitch)"

declare raise_loop.simps [code] lower_loop.simps [code]

definition transposePitch :: "int \<Rightarrow> int option" where
  "transposePitch pitch =
     (case raise_loop pitch of None \<Rightarrow> None | Some pitch' \<Rightarrow> lower_loop pitch')"

text \<open>
  With exact arithmetic both loops end.  The conversion uses the exact loops: for every
  pitch of a magnitude of at most \<open>2 ^ 53\<close>, the MIDI scale from 0 to 127 included, they give
  the result of the loops on doubles (lemma \<open>transposePitch_agrees\<close> below).
\<close>

function raise_loop_exact :: "int \<Rightarrow> int" where
  "raise_loop_exact pitch =
     (if pitch < PIANO_MIN then raise_loop_exact (pitch + OCTAVE) else pitch)"
  by pat_completeness auto
termination
  by (relation "measure (\<lambda>pitch. nat (PIANO_MIN - pitch))") (auto simp: OCTAVE_def)

function lower_loop_exact :: "int \<Rightarrow> int" where
  "lower_loop_exact pitch =
     (if pitch > PIANO_MAX then lower_loop_exact (pitch - OCTAVE) else pitch)"
  by pat_completeness auto
termination
  by (relation "measure (\<lambda>pitch. nat (pitch - PIANO_MAX))") (auto simp: OCTAVE_def)

definition transposePitch_exact :: "int \<Rightarrow> int" where
  "transposePitch_exact pitch = lower_loop_exact (raise_loop_exact pitch)"

declare raise_loop_exact.simps [simp del] lower_loop_exact.simps [simp del]

section \<open>Reading the MIDI data\<close>

record midi_note =
  time :: number
  midi :: int
  velocity :: number

record track =
  channel :: int
  track_notes :: "midi_note list"

record midi_file =
  duration :: number
  tracks :: "track list"

text \<open>
  The \<^verbatim>\<open>chords\<close> map: its entries in insertion order, a time as key and the pitches of the
  chord at that time as value.
\<close>

type_synonym chord_map = "(number \<times> int list) list"

record read_state =
  chords :: chord_map
  skippedNotes :: nat
  transposedNotes :: nat

record midi_info = read_state +
  warnings :: "string list"
  errors :: "string list"

text \<open>\<^verbatim>\<open>chords.get(noteTime).push(notePitch)\<close>: the array stored under the key grows in place.\<close>

fun push_pitch :: "number \<Rightarrow> int \<Rightarrow> chord_map \<Rightarrow> chord_map" where
  "push_pitch noteTime notePitch [] = []"
| "push_pitch noteTime notePitch ((t, ps) # rest) =
     (if t = noteTime then (t, ps @ [notePitch]) # rest
      else (t, ps) # push_pitch noteTime notePitch rest)"

text \<open>
  A pitch outside the range of the piano is transposed into it (here with the exact
  loops); then the pitch is counted from the lowest note of the piano.
\<close>

definition outside_range :: "int \<Rightarrow> bool" where
  "outside_range notePitch \<longleftrightarrow> notePitch < PIANO_MIN \<or> notePitch > PIANO_MAX"

text \<open>
  A pitch is added to the chord at its time: a pitch that the chord already includes
  changes nothing, a new pitch is pushed while the chord has less than \<^verbatim>\<open>voices\<close> pitches
  and is counted as skipped otherwise.  A time without a chord gets a new chord.
\<close>

definition add_to_chord :: "settings \<Rightarrow> read_state \<Rightarrow> number \<Rightarrow> int \<Rightarrow> read_state" where
  "add_to_chord settings st noteTime notePitch =
     (case map_of (chords st) noteTime of
        Some ps \<Rightarrow>
          if notePitch \<notin> set ps then
            if less_than (of_nat (length ps)) (map_of settings ''voices'')
            then st\<lparr>chords := push_pitch noteTime notePitch (chords st)\<rparr>
            else st\<lparr>skippedNotes := skippedNotes st + 1\<rparr>
          else st
      | None \<Rightarrow> st\<lparr>chords := chords st @ [(noteTime, [notePitch])]\<rparr>)"

text \<open>The body of the loop over the notes of a track.\<close>

definition read_note :: "settings \<Rightarrow> read_state \<Rightarrow> midi_note \<Rightarrow> read_state" where
  "read_note settings st n =
     (if velocity n = 0 then st
      else if less_than (time n) (map_of settings ''startTime'') then st
      else
        let st1 = (if outside_range (midi n)
                   then st\<lparr>transposedNotes := transposedNotes st + 1\<rparr> else st);
            notePitch = (if outside_range (midi n) then transposePitch_exact (midi n) else midi n)
                          - PIANO_MIN;
            noteTime = roundToPlaces (time n) NOTE_PRECISION
        in add_to_chord settings st1 noteTime notePitch)"

fun read_notes :: "settings \<Rightarrow> read_state \<Rightarrow> midi_note list \<Rightarrow> read_state" where
  "read_notes settings st [] = st"
| "read_notes settings st (n # ns) = read_notes settings (read_note settings st n) ns"

text \<open>The loop over the tracks; a track on channel 9 (percussion) is ignored.\<close>

fun read_tracks :: "settings \<Rightarrow> read_state \<Rightarrow> track list \<Rightarrow> read_state" where
  "read_tracks settings st [] = st"
| "read_tracks settings st (tr # trs) =
     (if channel tr = 9 then read_tracks settings st trs
      else read_tracks settings (read_notes settings st (track_notes tr)) trs)"

text \<open>
  The comparator that sorts the entries by their keys.  \<^verbatim>\<open>parseFloat\<close> of an entry reads
  the entry's key: the entry is turned into a string that starts with the key.
\<close>

definition compare_times :: "number \<times> int list \<Rightarrow> number \<times> int list \<Rightarrow> number" where
  "compare_times time1 time2 = roundToPlaces (fst time1 - fst time2) NOTE_PRECISION"

definition readMidiData :: "midi_file \<Rightarrow> settings \<Rightarrow> midi_info" where
  "readMidiData mid settings =
     (let st = read_tracks settings
                 \<lparr>chords = [], skippedNotes = 0, transposedNotes = 0\<rparr> (tracks mid);
          errors' = (if length (chords st) = 0 then [NO_NOTES_FOUND] else []);
          chords' = (if length (chords st) = 0 then chords st
                     else sort_by compare_times (chords st));
          warnings' = (if length (tracks mid) = 1 then [TYPE_0_FILE] else [])
      in \<lparr>chords = chords', skippedNotes = skippedNotes st,
          transposedNotes = transposedNotes st, warnings = warnings', errors = errors'\<rparr>)"

section \<open>Building the song arrays\<close>

text \<open>The three song arrays of an object, and its entries in the order of its keys.\<close>

record 'a song_arrays =
  pitchArrays :: "'a list"
  timeArrays :: "'a list"
  chordArrays :: "'a list"

definition entries :: "'a song_arrays \<Rightarrow> (string \<times> 'a list) list" where
  "entries a =
     [(''pitchArrays'', pitchArrays a),
      (''timeArrays'', timeArrays a),
      (''chordArrays'', chordArrays a)]"

text \<open>What \<^verbatim>\<open>console.log\<close> receives.\<close>

datatype console_entry = LogNumber nat | LogArrays "string song_arrays"

text \<open>The local variables of \<^verbatim>\<open>convertToArray\<close>.\<close>

record build_state =
  owArrays :: "number song_arrays"
  pitchArrayElements :: nat
  timeArrayElements :: nat
  chordArrayElements :: nat
  uncompressedSize :: nat
  compressedSize :: nat
  prevTime :: number
  stopTime :: number

text \<open>
  The body of the loop over the chords, in two parts.  First the counters and the two
  sizes are updated for the chord.
\<close>

definition count_chord :: "build_state \<Rightarrow> int list \<Rightarrow> build_state" where
  "count_chord st pitches =
     (let pe = pitchArrayElements st + length pitches;
          te = timeArrayElements st + 1;
          ce = chordArrayElements st + 1
      in st\<lparr>pitchArrayElements := pe, timeArrayElements := te, chordArrayElements := ce,
            uncompressedSize := pe + te + ce,
            compressedSize :=
              nat \<lceil>(of_nat (pe * element_length ''pitchArrays''
                            + te * element_length ''timeArrays''
                            + ce * element_length ''chordArrays'') :: rat)
                   / of_nat COMPRESSED_ELEMENT_LENGTH\<rceil>\<rparr>)"

definition size_exceeded :: "bool \<Rightarrow> build_state \<Rightarrow> bool" where
  "size_exceeded compressionEnabled st \<longleftrightarrow>
     (if compressionEnabled then compressedSize st else uncompressedSize st)
       > MAX_TOTAL_ARRAY_ELEMENTS"

text \<open>
  Then the chord is written: the time interval to the previous chord in milliseconds, the
  amount of pitches, and the pitches as \<^verbatim>\<open>pitches.sort()\<close> orders them.
\<close>

definition write_chord :: "build_state \<Rightarrow> number \<Rightarrow> int list \<Rightarrow> build_state" where
  "write_chord st currentChordTime pitches =
     (let arrays = build_state.owArrays st;
          interval = min (roundToPlaces ((currentChordTime - prevTime st) * 1000) NOTE_PRECISION)
                         MAX_TIME_INTERVAL
      in st\<lparr>build_state.owArrays :=
              \<lparr>pitchArrays = pitchArrays arrays @ map of_int (sort_default pitches),
               timeArrays = timeArrays arrays @ [interval],
               chordArrays = chordArrays arrays @ [of_nat (length pitches)]\<rparr>,
            prevTime := currentChordTime\<rparr>)"

text \<open>
  The loop over the chords.  When the size is over the maximum, the loop stops before the
  chord is written.
\<close>

fun chord_loop :: "bool \<Rightarrow> chord_map \<Rightarrow> build_state \<Rightarrow> build_state" where
  "chord_loop compressionEnabled [] st = st"
| "chord_loop compressionEnabled ((currentChordTime, pitches) # rest) st =
     (let st1 = count_chord st pitches
      in if size_exceeded compressionEnabled st1
         then st1\<lparr>build_state.stopTime := currentChordTime\<rparr>
         else chord_loop compressionEnabled rest (write_chord st1 currentChordTime pitches))"

record array_info =
  owArrays :: "number song_arrays"
  stopTime :: "number option"

text \<open>
  \<^verbatim>\<open>convertToArray\<close> returns the arrays and the stop time, and logs the last compressed
  size.  On an empty map the time of the first chord and the stop time are \<^verbatim>\<open>undefined\<close>.
\<close>

definition convertToArray :: "chord_map \<Rightarrow> bool \<Rightarrow> array_info \<times> console_entry list" where
  "convertToArray chordMap compressionEnabled =
     (case chordMap of
        [] \<Rightarrow>
          (\<lparr>owArrays = \<lparr>pitchArrays = [], timeArrays = [], chordArrays = []\<rparr>,
            stopTime = None\<rparr>, [LogNumber 0])
      | first # _ \<Rightarrow>
          let st = chord_loop compressionEnabled chordMap
                     \<lparr>build_state.owArrays =
                        \<lparr>pitchArrays = [], timeArrays = [], chordArrays = []\<rparr>,
                      pitchArrayElements = 0, timeArrayElements = 0, chordArrayElements = 0,
                      uncompressedSize = 0, compressedSize = 0,
                      prevTime = fst first, build_state.stopTime = 0\<rparr>;
              stopTime' = (if build_state.stopTime st = 0 then fst (last chordMap)
                           else build_state.stopTime st)
          in (\<lparr>owArrays = build_state.owArrays st, stopTime = Some stopTime'\<rparr>,
              [LogNumber (compressedSize st)]))"

section \<open>Compressing the song arrays\<close>

text \<open>The loop that cuts the string buffer into elements of seven digits.\<close>

function slice_loop :: "string \<Rightarrow> nat \<Rightarrow> string list \<Rightarrow> string list" where
  "slice_loop stringBuffer i compressed =
     (if i < length stringBuffer
      then slice_loop stringBuffer (i + COMPRESSED_ELEMENT_LENGTH)
             (compressed @ [slice stringBuffer i (i + COMPRESSED_ELEMENT_LENGTH)])
      else compressed)"
  by pat_completeness auto
termination
  by (relation "measure (\<lambda>(stringBuffer, i, compressed). length stringBuffer - i)")
    (auto simp: COMPRESSED_ELEMENT_LENGTH_def)

declare slice_loop.simps [simp del]

definition compress_array :: "string \<Rightarrow> number list \<Rightarrow> string list" where
  "compress_array arrayName songArray =
     (let padded = map (\<lambda>x. padStart (element_length arrayName) (number_toString x)) songArray;
          stringBuffer = concat padded
      in slice_loop stringBuffer 0 [])"

definition compressSongArrays ::
    "number song_arrays \<Rightarrow> string song_arrays \<times> console_entry list" where
  "compressSongArrays arrays =
     (let compressedArrays =
            \<lparr>pitchArrays = compress_array ''pitchArrays'' (pitchArrays arrays),
             timeArrays = compress_array ''timeArrays'' (timeArrays arrays),
             chordArrays = compress_array ''chordArrays'' (chordArrays arrays)\<rparr>
      in (compressedArrays, [LogArrays compressedArrays]))"

section \<open>Writing the workshop rules\<close>

text \<open>Interpolation of \<^verbatim>\<open>songArray[index]\<close>: past the end of the array it is \<^verbatim>\<open>undefined\<close>.\<close>

definition element_text :: "string list \<Rightarrow> nat \<Rightarrow> string" where
  "element_text songArray index =
     (if index < length songArray then songArray ! index else ''undefined'')"

text \<open>
  The inner loop: it appends an element and only then tests whether the array has ended.
  It returns the new index and the actions text.
\<close>

function for_loop :: "string list \<Rightarrow> nat \<Rightarrow> nat \<Rightarrow> string \<Rightarrow> nat \<times> string" where
  "for_loop songArray j index actions =
     (if j < MAX_OW_ARRAY_SIZE - 1 then
        let actions' = actions @ '', '' @ element_text songArray index;
            index' = index + 1
        in if index' \<ge> length songArray then (index', actions')
           else for_loop songArray (j + 1) index' actions'
      else (index, actions))"
  by pat_completeness auto
termination
  by (relation "measure (\<lambda>(songArray, j, index, actions). MAX_OW_ARRAY_SIZE - 1 - j)") auto

lemma for_loop_index: "index \<le> fst (for_loop songArray j index actions)"
proof (induction songArray j index actions rule: for_loop.induct)
  case (1 songArray j index actions)
  show ?case
  proof (cases "j < MAX_OW_ARRAY_SIZE - 1")
    case j: True
    show ?thesis
    proof (cases "index + 1 \<ge> length songArray")
      case True
      with j show ?thesis
        by (subst for_loop.simps) (simp add: Let_def)
    next
      case False
      with j 1 [OF j refl refl] have "index + 1 \<le> fst (for_loop songArray (j + 1) (index + 1)
          (actions @ '', '' @ element_text songArray index))"
        by simp
      with j False show ?thesis
        by (subst for_loop.simps) (simp add: Let_def)
    qed
  next
    case False
    then show ?thesis
      by (subst for_loop.simps) simp
  qed
qed

text \<open>The loop that writes the rules of one array.\<close>

function while_loop ::
    "string \<Rightarrow> string list \<Rightarrow> nat \<Rightarrow> nat \<Rightarrow> string list \<Rightarrow> string list" where
  \<open>while_loop arrayName songArray owArrayIndex index rules =
     (if index < length songArray then
        let actions = ''Global.'' @ arrayName @ ''['' @ number_toString (of_nat owArrayIndex)
                        @ ''] = Array('' @ element_text songArray index;
            r = for_loop songArray 0 (index + 1) actions;
            newRule = ''rule("'' @ arrayName @ ''"){event{Ongoing-Global;}''
                        @ ''actions{'' @ snd r @ '');}}\<newline>''
        in while_loop arrayName songArray (owArrayIndex + 1) (fst r) (rules @ [newRule])
      else rules)\<close>
  by pat_completeness auto
termination
proof (relation "measure (\<lambda>(arrayName, songArray, owArrayIndex, index, rules).
    length songArray - index)", goal_cases)
  case 1
  show ?case by simp
next
  case (2 arrayName songArray owArrayIndex index rules actions r newRule)
  have "index + 1 \<le> fst (for_loop songArray 0 (index + 1) actions)"
    by (rule for_loop_index)
  with 2 show ?case by simp
qed

declare for_loop.simps [simp del] while_loop.simps [simp del]

definition config_rule :: "number option \<Rightarrow> string" where
  \<open>config_rule maxVoices =
     ''rule("Max amount of bots required"){event{Ongoing-Global;}''
     @ ''actions{Global.maxBots = '' @ value_text maxVoices
     @ '';Global.maxArraySize = '' @ number_toString (of_nat MAX_OW_ARRAY_SIZE)
     @ '';\<newline>    Global.compressedElementSize = ''
     @ number_toString (of_nat COMPRESSED_ELEMENT_LENGTH) @ '';}}\<newline>''\<close>

definition writeWorkshopRules :: "string song_arrays \<Rightarrow> number option \<Rightarrow> string" where
  "writeWorkshopRules arrays maxVoices =
     concat (foldl (\<lambda>rules (arrayName, songArray). while_loop arrayName songArray 0 0 rules)
               [config_rule maxVoices] (entries arrays))"

section \<open>The conversion\<close>

text \<open>
  Without compression the arrays hold numbers, with compression strings; the rules
  interpolate either into their text.
\<close>

definition interpolated :: "number song_arrays \<Rightarrow> string song_arrays" where
  "interpolated arrays =
     \<lparr>pitchArrays = map number_toString (pitchArrays arrays),
      timeArrays = map number_toString (timeArrays arrays),
      chordArrays = map number_toString (chordArrays arrays)\<rparr>"

text \<open>The settings in force: the defaults unless the object has as many keys as the table.\<close>

definition settings_in_force :: "settings \<Rightarrow> settings" where
  "settings_in_force settings =
     (if length (map fst settings) \<noteq> length (map fst CONVERTER_SETTINGS_INFO)
      then DEFAULT_SETTINGS else settings)"

record conversion_result =
  rules :: string
  skippedNotes :: nat
  transposedNotes :: nat
  duration :: number
  stopTime :: "number option"
  warnings :: "string list"
  errors :: "string list"

text \<open>
  \<^verbatim>\<open>convertMidi\<close> returns the result object; the second component is what the call wrote
  to the console.  With nothing passed for \<^verbatim>\<open>settings\<close> the object has no keys, and
  \<^verbatim>\<open>compressionEnabled\<close> is then true.
\<close>

definition convertMidi ::
    "midi_file \<Rightarrow> settings \<Rightarrow> bool \<Rightarrow> conversion_result \<times> console_entry list" where
  "convertMidi mid settings compressionEnabled =
     (let settings' = settings_in_force settings;
          midiInfo = readMidiData mid settings'
      in if length (chords midiInfo) \<noteq> 0 then
           let (arrayInfo, log1) = convertToArray (chords midiInfo) compressionEnabled;
               (arrays, log2) =
                 (if compressionEnabled
                  then compressSongArrays (array_info.owArrays arrayInfo)
                  else (interpolated (array_info.owArrays arrayInfo), []));
               rules' = writeWorkshopRules arrays (map_of settings' ''voices'')
           in (\<lparr>rules = rules',
                skippedNotes = read_state.skippedNotes midiInfo,
                transposedNotes = read_state.transposedNotes midiInfo,
                duration = midi_file.duration mid,
                stopTime = array_info.stopTime arrayInfo,
                warnings = midi_info.warnings midiInfo,
                errors = midi_info.errors midiInfo\<rparr>, log1 @ log2)
         else
           (\<lparr>rules = [],
             skippedNotes = read_state.skippedNotes midiInfo,
             transposedNotes = read_state.transposedNotes midiInfo,
             duration = midi_file.duration mid,
             stopTime = None,
             warnings = midi_info.warnings midiInfo,
             errors = midi_info.errors midiInfo\<rparr>, []))"

section \<open>Notions used in the statements\<close>

text \<open>The two equations that relate the three song arrays.\<close>

definition arrays_consistent :: "number song_arrays \<Rightarrow> bool" where
  "arrays_consistent a \<longleftrightarrow>
     sum_list (chordArrays a) = of_nat (length (pitchArrays a)) \<and>
     length (timeArrays a) = length (chordArrays a)"

text \<open>The total amount of elements of the three song arrays.\<close>

definition total_elements :: "'a song_arrays \<Rightarrow> nat" where
  "total_elements a = length (pitchArrays a) + length (timeArrays a) + length (chordArrays a)"

text \<open>In the array builder, the three counters are the lengths of the three arrays.\<close>

definition counted :: "build_state \<Rightarrow> bool" where
  "counted st \<longleftrightarrow>
     length (pitchArrays (build_state.owArrays st)) = pitchArrayElements st \<and>
     length (timeArrays (build_state.owArrays st)) = timeArrayElements st \<and>
     length (chordArrays (build_state.owArrays st)) = chordArrayElements st"

text \<open>No chord of a chord map has more than \<open>V\<close> pitches, and no chord has a pitch twice.\<close>

definition chords_capped :: "nat \<Rightarrow> chord_map \<Rightarrow> bool" where
  "chords_capped V cs \<longleftrightarrow> (\<forall>(t, ps) \<in> set cs. length ps \<le> V \<and> distinct ps)"

text \<open>
  A settings entry is in range when \<^verbatim>\<open>CONVERTER_SETTINGS_INFO\<close> has its key and the value lies
  between the minimum and the maximum given there.
\<close>

definition in_range :: "string \<times> number \<Rightarrow> bool" where
  "in_range kv =
     (case map_of CONVERTER_SETTINGS_INFO (fst kv) of
        None \<Rightarrow> False
      | Some (lo, hi, d) \<Rightarrow> lo \<le> snd kv \<and> (case hi of None \<Rightarrow> True | Some h \<Rightarrow> snd kv \<le> h))"

text \<open>
  Modelled from the spec: the decoding of a compressed array is not part of the source
  file.  The elements of the array are joined into one digit string again, the string is
  split into consecutive fields of the array's element length, and each field is read as a
  decimal number.
\<close>

definition digit_value :: "char \<Rightarrow> nat" where
  "digit_value c = of_char c - 48"

definition read_decimal :: "string \<Rightarrow> nat" where
  "read_decimal s = foldl (\<lambda>acc c. acc * 10 + digit_value c) 0 s"

function fields :: "nat \<Rightarrow> string \<Rightarrow> string list" where
  "fields w s = (if w = 0 \<or> s = [] then [] else take w s # fields w (drop w s))"
  by pat_completeness auto
termination
  by (relation "measure (\<lambda>(w, s). length s)") auto

declare fields.simps [simp del]

definition unpack :: "nat \<Rightarrow> string list \<Rightarrow> number list" where
  "unpack w packed = map (\<lambda>field. of_nat (read_decimal field)) (fields w (concat packed))"

section \<open>MIDI objects used as examples\<close>

text \<open>Seven different pitches at the same time.\<close>

definition seven_notes :: midi_file where
  "seven_notes = \<lparr>midi_file.duration = 1, tracks = [\<lparr>channel = 0, track_notes =
     map (\<lambda>m. \<lparr>time = 0, midi = m, velocity = 1\<rparr>) [60, 61, 62, 63, 64, 65, 66]\<rparr>,
     \<lparr>channel = 1, track_notes = []\<rparr>]\<rparr>"

text \<open>Two chords: two notes at time 0 and one note half a second later.\<close>

definition spec_example :: midi_file where
  "spec_example = \<lparr>midi_file.duration = 1, tracks =
     [\<lparr>channel = 0, track_notes =
        [\<lparr>time = 0, midi = 60, velocity = 80\<rparr>,
         \<lparr>time = 0, midi = 64, velocity = 80\<rparr>,
         \<lparr>time = 1 / 2, midi = 67, velocity = 80\<rparr>]\<rparr>,
      \<lparr>channel = 1, track_notes = []\<rparr>]\<rparr>"

text \<open>Two low notes at the same time, the lower one first.\<close>

definition low_notes :: midi_file where
  "low_notes = \<lparr>midi_file.duration = 1, tracks =
     [\<lparr>channel = 0, track_notes =
        [\<lparr>time = 0, midi = 33, velocity = 1\<rparr>,
         \<lparr>time = 0, midi = 34, velocity = 1\<rparr>]\<rparr>,
      \<lparr>channel = 1, track_notes = []\<rparr>]\<rparr>"

text \<open>A song of \<open>n\<close> notes of the same pitch, one note per second.\<close>

definition long_song :: "nat \<Rightarrow> midi_file" where
  "long_song n = \<lparr>midi_file.duration = of_nat n, tracks =
     [\<lparr>channel = 0, track_notes =
        map (\<lambda>i. \<lparr>time = of_nat i, midi = 60, velocity = 1\<rparr>) [0..<n]\<rparr>,
      \<lparr>channel = 1, track_notes = []\<rparr>]\<rparr>"

abbreviation (input) one_note_chord :: "nat \<Rightarrow> number \<times> int list" where
  "one_note_chord i \<equiv> (of_nat i, [36])"

section \<open>Basic facts\<close>

lemma DEFAULT_SETTINGS_eq: "DEFAULT_SETTINGS = [(''startTime'', 0), (''voices'', 6)]"
  by (simp add: DEFAULT_SETTINGS_def setting_default_def CONVERTER_SETTINGS_INFO_def)

lemma math_round_of_int: "math_round (of_int k) = k"
  unfolding math_round_def by linarith

lemma roundToPlaces_of_int: "roundToPlaces (of_int k) d = of_int k"
proof -
  have "(of_int k :: rat) * 10 ^ d = of_int (k * 10 ^ d)"
    by simp
  then have "math_round (of_int k * 10 ^ d) = k * 10 ^ d"
    by (simp only: math_round_of_int)
  then show ?thesis
    by (simp add: roundToPlaces_def)
qed

lemma roundToPlaces_of_nat: "roundToPlaces (of_nat k) d = of_nat k"
  using roundToPlaces_of_int [of "int k" d] by simp

lemma element_lengths:
  "element_length ''pitchArrays'' = 2" "element_length ''chordArrays'' = 1"
  "element_length ''timeArrays'' = 4"
  by (simp_all add: element_length_def SONG_DATA_ELEMENT_LENGTHS_def)

section \<open>Properties of transposition\<close>

lemma bit_length_le: "n < 2 ^ k \<Longrightarrow> bit_length n \<le> k"
proof (induction k arbitrary: n)
  case 0
  then show ?case by (subst bit_length.simps) simp
next
  case (Suc k)
  then have "n div 2 < 2 ^ k" by simp
  then have "bit_length (n div 2) \<le> k" by (rule Suc.IH)
  then show ?case by (subst bit_length.simps) simp
qed

lemma round_to_double_small:
  assumes "\<bar>n\<bar> < 2 ^ 53"
  shows "round_to_double n = n"
proof -
  from assms have "bit_length \<bar>n\<bar> \<le> 53"
    by (rule bit_length_le)
  then have "bit_length \<bar>n\<bar> - 53 = 0"
    by simp
  then show ?thesis
    by (simp add: round_to_double_def Let_def mult_sgn_abs)
qed

lemma round_to_double_exact:
  assumes "\<bar>n\<bar> \<le> 2 ^ 53"
  shows "round_to_double n = n"
proof (cases "\<bar>n\<bar> < 2 ^ 53")
  case True
  then show ?thesis by (rule round_to_double_small)
next
  case False
  with assms have "n = 2 ^ 53 \<or> n = - (2 ^ 53)"
    by (auto simp: abs_if split: if_splits)
  moreover have "round_to_double (2 ^ 53) = 2 ^ 53"
    by code_simp
  moreover have "round_to_double (- (2 ^ 53)) = - (2 ^ 53)"
    by code_simp
  ultimately show ?thesis by auto
qed


lemma raise_loop_exact_lower_bound: "PIANO_MIN \<le> raise_loop_exact p"
  by (induction p rule: raise_loop_exact.induct) (simp add: raise_loop_exact.simps)

lemma raise_loop_exact_upper_bound: "p \<le> PIANO_MAX \<Longrightarrow> raise_loop_exact p \<le> PIANO_MAX"
proof (induction p rule: raise_loop_exact.induct)
  case (1 pitch)
  show ?case
  proof (cases "pitch < PIANO_MIN")
    case True
    then have "pitch + OCTAVE \<le> PIANO_MAX"
      by (simp add: PIANO_MIN_def PIANO_MAX_def OCTAVE_def)
    with True 1 show ?thesis
      by (simp add: raise_loop_exact.simps [of pitch])
  next
    case False
    with 1 show ?thesis
      by (simp add: raise_loop_exact.simps [of pitch])
  qed
qed

lemma raise_loop_exact_above: "PIANO_MIN \<le> p \<Longrightarrow> raise_loop_exact p = p"
  by (simp add: raise_loop_exact.simps)

lemma lower_loop_exact_upper_bound: "lower_loop_exact p \<le> PIANO_MAX"
  by (induction p rule: lower_loop_exact.induct) (simp add: lower_loop_exact.simps)

lemma lower_loop_exact_lower_bound: "PIANO_MIN \<le> p \<Longrightarrow> PIANO_MIN \<le> lower_loop_exact p"
proof (induction p rule: lower_loop_exact.induct)
  case (1 pitch)
  show ?case
  proof (cases "pitch > PIANO_MAX")
    case True
    then have "PIANO_MIN \<le> pitch - OCTAVE"
      by (simp add: PIANO_MIN_def PIANO_MAX_def OCTAVE_def)
    with True 1 show ?thesis
      by (simp add: lower_loop_exact.simps [of pitch])
  next
    case False
    with 1 show ?thesis
      by (simp add: lower_loop_exact.simps [of pitch])
  qed
qed

lemma lower_loop_exact_below: "p \<le> PIANO_MAX \<Longrightarrow> lower_loop_exact p = p"
  by (simp add: lower_loop_exact.simps)

lemma transposePitch_exact_range:
  "24 \<le> transposePitch_exact p \<and> transposePitch_exact p \<le> 88 \<and>
   (24 \<le> p \<and> p \<le> 88 \<longrightarrow> transposePitch_exact p = p)"
proof -
  have lo: "PIANO_MIN \<le> transposePitch_exact p"
    unfolding transposePitch_exact_def
    by (rule lower_loop_exact_lower_bound) (rule raise_loop_exact_lower_bound)
  have hi: "transposePitch_exact p \<le> PIANO_MAX"
    unfolding transposePitch_exact_def by (rule lower_loop_exact_upper_bound)
  have same: "transposePitch_exact p = p" if "PIANO_MIN \<le> p" "p \<le> PIANO_MAX"
    using that
    by (simp add: transposePitch_exact_def raise_loop_exact_above lower_loop_exact_below)
  from lo hi same show ?thesis
    by (simp add: PIANO_MIN_def PIANO_MAX_def)
qed

lemma raise_loop_agrees:
  "- (2 ^ 53) \<le> p \<Longrightarrow> p \<le> 2 ^ 53 \<Longrightarrow> raise_loop p = Some (raise_loop_exact p)"
proof (induction p rule: raise_loop_exact.induct)
  case (1 pitch)
  show ?case
  proof (cases "pitch < PIANO_MIN")
    case True
    with 1(2) have bounds: "- (2 ^ 53) \<le> pitch + OCTAVE" "pitch + OCTAVE \<le> 2 ^ 53"
      by (simp_all add: PIANO_MIN_def OCTAVE_def)
    then have "round_to_double (pitch + OCTAVE) = pitch + OCTAVE"
      by (intro round_to_double_exact) (simp add: abs_le_iff)
    moreover from True bounds have "raise_loop (pitch + OCTAVE)
        = Some (raise_loop_exact (pitch + OCTAVE))"
      by (rule 1(1))
    ultimately show ?thesis
      using True
      by (subst raise_loop.simps, subst raise_loop_exact.simps) simp
  next
    case False
    then show ?thesis
      by (subst raise_loop.simps, subst raise_loop_exact.simps) simp
  qed
qed

lemma lower_loop_agrees:
  "- (2 ^ 53) \<le> p \<Longrightarrow> p \<le> 2 ^ 53 \<Longrightarrow> lower_loop p = Some (lower_loop_exact p)"
proof (induction p rule: lower_loop_exact.induct)
  case (1 pitch)
  show ?case
  proof (cases "pitch > PIANO_MAX")
    case True
    with 1(3) have bounds: "- (2 ^ 53) \<le> pitch - OCTAVE" "pitch - OCTAVE \<le> 2 ^ 53"
      by (simp_all add: PIANO_MAX_def OCTAVE_def)
    then have "round_to_double (pitch - OCTAVE) = pitch - OCTAVE"
      by (intro round_to_double_exact) (simp add: abs_le_iff)
    moreover from True bounds have "lower_loop (pitch - OCTAVE)
        = Some (lower_loop_exact (pitch - OCTAVE))"
      by (rule 1(1))
    ultimately show ?thesis
      using True
      by (subst lower_loop.simps, subst lower_loop_exact.simps) simp
  next
    case False
    then show ?thesis
      by (subst lower_loop.simps, subst lower_loop_exact.simps) simp
  qed
qed

lemma transposePitch_agrees:
  assumes "\<bar>p\<bar> \<le> 2 ^ 53"
  shows "transposePitch p = Some (transposePitch_exact p)"
proof -
  from assms have p: "- (2 ^ 53) \<le> p" "p \<le> 2 ^ 53"
    by (simp_all add: abs_le_iff)
  then have r: "raise_loop p = Some (raise_loop_exact p)"
    by (rule raise_loop_agrees)
  have lo: "PIANO_MIN \<le> raise_loop_exact p"
    by (rule raise_loop_exact_lower_bound)
  have hi: "raise_loop_exact p \<le> 2 ^ 53"
  proof (cases "PIANO_MIN \<le> p")
    case True
    with p show ?thesis by (simp add: raise_loop_exact_above)
  next
    case False
    then have "raise_loop_exact p \<le> PIANO_MAX"
      by (intro raise_loop_exact_upper_bound) (simp add: PIANO_MIN_def PIANO_MAX_def)
    then show ?thesis by (simp add: PIANO_MAX_def)
  qed
  from lo have "- (2 ^ 53) \<le> raise_loop_exact p"
    by (simp add: PIANO_MIN_def)
  then have "lower_loop (raise_loop_exact p) = Some (lower_loop_exact (raise_loop_exact p))"
    using hi by (rule lower_loop_agrees)
  with r show ?thesis
    by (simp add: transposePitch_def transposePitch_exact_def)
qed

lemma round_to_double_stuck:
  "round_to_double (2 ^ 57 + 32 - OCTAVE) = 2 ^ 57 + 32"
  "round_to_double (- (2 ^ 57 + 32) + OCTAVE) = - (2 ^ 57 + 32)"
  by code_simp+

lemma lower_loop_stuck: "lower_loop (2 ^ 57 + 32) = None"
proof -
  have gt: "(2 ^ 57 + 32 :: int) > PIANO_MAX"
    by (simp add: PIANO_MAX_def)
  have step: "x \<noteq> 2 ^ 57 + 32"
    if IH: "\<And>x y. f x = Some y \<Longrightarrow> x \<noteq> 2 ^ 57 + 32"
      and eq: "(if x > PIANO_MAX then f (round_to_double (x - OCTAVE)) else Some x) = Some y"
    for f :: "int \<Rightarrow> int option" and x y
  proof
    assume "x = 2 ^ 57 + 32"
    with eq have "f (2 ^ 57 + 32) = Some y"
      by (simp only: gt if_True round_to_double_stuck)
    then have "(2 ^ 57 + 32 :: int) \<noteq> 2 ^ 57 + 32"
      by (rule IH)
    then show False by simp
  qed
  have "x \<noteq> 2 ^ 57 + 32" if "lower_loop x = Some y" for x y
    by (rule lower_loop.raw_induct [where P = "\<lambda>x y. x \<noteq> 2 ^ 57 + 32", OF _ that])
      (rule step)
  then show ?thesis
    by (cases "lower_loop (2 ^ 57 + 32)") auto
qed

lemma raise_loop_stuck: "raise_loop (- (2 ^ 57 + 32)) = None"
proof -
  have lt: "(- (2 ^ 57 + 32) :: int) < PIANO_MIN"
    by (simp add: PIANO_MIN_def)
  have step: "x \<noteq> - (2 ^ 57 + 32)"
    if IH: "\<And>x y. f x = Some y \<Longrightarrow> x \<noteq> - (2 ^ 57 + 32)"
      and eq: "(if x < PIANO_MIN then f (round_to_double (x + OCTAVE)) else Some x) = Some y"
    for f :: "int \<Rightarrow> int option" and x y
  proof
    assume "x = - (2 ^ 57 + 32)"
    with eq have "f (- (2 ^ 57 + 32)) = Some y"
      by (simp only: lt if_True round_to_double_stuck)
    then have "(- (2 ^ 57 + 32) :: int) \<noteq> - (2 ^ 57 + 32)"
      by (rule IH)
    then show False by simp
  qed
  have "x \<noteq> - (2 ^ 57 + 32)" if "raise_loop x = Some y" for x y
    by (rule raise_loop.raw_induct [where P = "\<lambda>x y. x \<noteq> - (2 ^ 57 + 32)", OF _ that])
      (rule step)
  then show ?thesis
    by (cases "raise_loop (- (2 ^ 57 + 32))") auto
qed

text \<open>
  Claim C8, as stated, fails: \<^verbatim>\<open>transposePitch\<close> does not return for every integer pitch.
  The integer \<open>2 ^ 57 + 32\<close> is a double, and the double nearest to that pitch less 12 is
  the pitch again: the second loop never ends.  In the same way the first loop never ends
  for the pitch \<open>- (2 ^ 57 + 32)\<close>.
\<close>

theorem transposePitch_no_result_counterexample:
  "round_to_double (2 ^ 57 + 32) = 2 ^ 57 + 32 \<and>
   round_to_double (- (2 ^ 57 + 32)) = - (2 ^ 57 + 32) \<and>
   transposePitch (2 ^ 57 + 32) = None \<and>
   transposePitch (- (2 ^ 57 + 32)) = None"
proof -
  have "round_to_double (2 ^ 57 + 32) = 2 ^ 57 + 32"
    and "round_to_double (- (2 ^ 57 + 32)) = - (2 ^ 57 + 32)"
    by code_simp+
  moreover
  have "\<not> (2 ^ 57 + 32 :: int) < PIANO_MIN"
    by (simp add: PIANO_MIN_def)
  then have "raise_loop (2 ^ 57 + 32) = Some (2 ^ 57 + 32)"
    by (subst raise_loop.simps) (simp only: if_False)
  then have "transposePitch (2 ^ 57 + 32) = None"
    by (simp only: transposePitch_def option.case lower_loop_stuck)
  moreover have "transposePitch (- (2 ^ 57 + 32)) = None"
    by (simp only: transposePitch_def option.case raise_loop_stuck)
  ultimately show ?thesis
    by (simp only: simp_thms)
qed

text \<open>
  Claim C8, amended.  For every integer pitch of a magnitude of at most \<open>2 ^ 53\<close> (up to
  there a double holds every integer; the MIDI scale from 0 to 127 lies inside),
  \<^verbatim>\<open>transposePitch\<close> returns, its result lies between 24 and 88, and a pitch that is already
  inside the range is returned unchanged.
\<close>

theorem transposePitch_range:
  assumes "\<bar>p\<bar> \<le> 2 ^ 53"
  shows "\<exists>y. transposePitch p = Some y \<and> 24 \<le> y \<and> y \<le> 88 \<and>
           (24 \<le> p \<and> p \<le> 88 \<longrightarrow> y = p)"
  using transposePitch_agrees [OF assms] transposePitch_exact_range [of p]
  by simp

theorem transposePitch_range_witness:
  "\<bar>60 :: int\<bar> \<le> 2 ^ 53 \<and> transposePitch 60 = Some 60 \<and>
   transposePitch 100 = Some 88 \<and> transposePitch (- 7) = Some 29 \<and>
   transposePitch 127 = Some 79 \<and> transposePitch 0 = Some 24"
proof -
  have h: "\<bar>60 :: int\<bar> \<le> 2 ^ 53"
    by simp
  from transposePitch_range [OF h] have a: "transposePitch 60 = Some 60"
    by auto
  have b: "transposePitch 100 = Some 88" "transposePitch (- 7) = Some 29"
    "transposePitch 127 = Some 79" "transposePitch 0 = Some 24"
    by code_simp+
  from h a b show ?thesis by simp
qed

section \<open>The song arrays are consistent\<close>

lemma length_insert_by: "length (insert_by cmp x xs) = Suc (length xs)"
  by (induction xs) auto

lemma length_sort_by: "length (sort_by cmp xs) = length xs"
  by (induction xs) (auto simp: length_insert_by)

lemma length_sort_default: "length (sort_default xs) = length xs"
  by (simp add: sort_default_def length_sort_by)

lemma count_chord_owArrays: "build_state.owArrays (count_chord st ps) = build_state.owArrays st"
  by (simp add: count_chord_def Let_def)

lemma write_chord_consistent:
  "arrays_consistent (build_state.owArrays st) \<Longrightarrow>
   arrays_consistent (build_state.owArrays (write_chord st t ps))"
  by (simp add: arrays_consistent_def write_chord_def Let_def length_sort_default)

lemma chord_loop_consistent:
  "arrays_consistent (build_state.owArrays st) \<Longrightarrow>
   arrays_consistent (build_state.owArrays (chord_loop c cs st))"
proof (induction cs arbitrary: st)
  case Nil
  then show ?case by simp
next
  case (Cons ch cs)
  obtain t ps where ch: "ch = (t, ps)" by (cases ch)
  from Cons.prems have 1: "arrays_consistent (build_state.owArrays (count_chord st ps))"
    by (simp add: count_chord_owArrays)
  then have "arrays_consistent (build_state.owArrays (write_chord (count_chord st ps) t ps))"
    by (rule write_chord_consistent)
  then have "arrays_consistent
      (build_state.owArrays (chord_loop c cs (write_chord (count_chord st ps) t ps)))"
    by (rule Cons.IH)
  with 1 show ?case
    by (simp add: ch Let_def)
qed

text \<open>
  Claim C4.  Whatever chords the array builder is run on, and with or without compression,
  the sum of the chord sizes it returns equals the number of pitches it returns, and it
  returns as many time intervals as chord sizes.
\<close>

theorem convertToArray_consistent:
  "sum_list (chordArrays (array_info.owArrays (fst (convertToArray chordMap c))))
     = of_nat (length (pitchArrays (array_info.owArrays (fst (convertToArray chordMap c))))) \<and>
   length (timeArrays (array_info.owArrays (fst (convertToArray chordMap c))))
     = length (chordArrays (array_info.owArrays (fst (convertToArray chordMap c))))"
proof (cases chordMap)
  case Nil
  then show ?thesis
    by (simp add: convertToArray_def)
next
  case (Cons first rest)
  let ?init = "\<lparr>build_state.owArrays =
                        \<lparr>pitchArrays = [], timeArrays = [], chordArrays = []\<rparr>,
                      pitchArrayElements = 0, timeArrayElements = 0, chordArrayElements = 0,
                      uncompressedSize = 0, compressedSize = 0,
                      prevTime = fst first, build_state.stopTime = 0\<rparr>"
  have "arrays_consistent (build_state.owArrays ?init)"
    by (simp add: arrays_consistent_def)
  then have "arrays_consistent (build_state.owArrays (chord_loop c chordMap ?init))"
    by (rule chord_loop_consistent)
  then show ?thesis
    unfolding arrays_consistent_def
    by (simp add: convertToArray_def Cons Let_def)
qed

section \<open>The conversion of a file without notes\<close>

lemma push_pitch_Nil: "push_pitch t p cs = [] \<longleftrightarrow> cs = []"
  by (induction cs) (auto split: if_splits)

lemma read_note_no_chord:
  assumes "chords (read_note settings st n) = []"
  shows "read_note settings st n = st"
  using assms
  by (auto simp: read_note_def add_to_chord_def Let_def push_pitch_Nil
      split: if_splits option.splits)

lemma read_note_keeps_chords:
  "chords st \<noteq> [] \<Longrightarrow> chords (read_note settings st n) \<noteq> []"
  by (auto simp: read_note_def add_to_chord_def Let_def push_pitch_Nil
      split: if_splits option.splits)

lemma read_notes_keeps_chords:
  "chords st \<noteq> [] \<Longrightarrow> chords (read_notes settings st ns) \<noteq> []"
  by (induction ns arbitrary: st) (auto simp: read_note_keeps_chords)

lemma read_notes_no_chord:
  "chords (read_notes settings st ns) = [] \<Longrightarrow> read_notes settings st ns = st"
proof (induction ns arbitrary: st)
  case Nil
  then show ?case by simp
next
  case (Cons n ns)
  from Cons.prems have "chords (read_note settings st n) = []"
    using read_notes_keeps_chords [of "read_note settings st n" settings ns] by auto
  then have "read_note settings st n = st"
    by (rule read_note_no_chord)
  with Cons show ?case by simp
qed

lemma read_tracks_keeps_chords:
  "chords st \<noteq> [] \<Longrightarrow> chords (read_tracks settings st trs) \<noteq> []"
  by (induction trs arbitrary: st) (auto simp: read_notes_keeps_chords)

lemma read_tracks_no_chord:
  "chords (read_tracks settings st trs) = [] \<Longrightarrow> read_tracks settings st trs = st"
proof (induction trs arbitrary: st)
  case Nil
  then show ?case by simp
next
  case (Cons tr trs)
  show ?case
  proof (cases "channel tr = 9")
    case True
    with Cons show ?thesis by simp
  next
    case False
    with Cons.prems have "chords (read_notes settings st (track_notes tr)) = []"
      using read_tracks_keeps_chords [of "read_notes settings st (track_notes tr)" settings trs]
      by auto
    then have "read_notes settings st (track_notes tr) = st"
      by (rule read_notes_no_chord)
    with Cons False show ?thesis by simp
  qed
qed

lemma insert_by_not_Nil: "insert_by cmp x xs \<noteq> []"
  by (cases xs) auto

lemma sort_by_Nil: "sort_by cmp xs = [] \<longleftrightarrow> xs = []"
  by (cases xs) (auto simp: insert_by_not_Nil)

lemma readMidiData_no_chord:
  assumes "chords (readMidiData mid settings) = []"
  shows "readMidiData mid settings =
           \<lparr>chords = [], read_state.skippedNotes = 0, read_state.transposedNotes = 0,
            midi_info.warnings = (if length (tracks mid) = 1 then [TYPE_0_FILE] else []),
            midi_info.errors = [NO_NOTES_FOUND]\<rparr>"
proof -
  let ?st = "read_tracks settings \<lparr>chords = [], read_state.skippedNotes = 0, read_state.transposedNotes = 0\<rparr> (tracks mid)"
  from assms have "chords ?st = []"
    by (simp add: readMidiData_def Let_def sort_by_Nil split: if_splits)
  then have "?st = \<lparr>chords = [], read_state.skippedNotes = 0, read_state.transposedNotes = 0\<rparr>"
    by (rule read_tracks_no_chord)
  then show ?thesis
    by (simp add: readMidiData_def Let_def)
qed

lemma while_loop_extends: "\<exists>ys. while_loop arrayName songArray owArrayIndex index rs = rs @ ys"
proof (induction arrayName songArray owArrayIndex index rs rule: while_loop.induct)
  case (1 arrayName songArray owArrayIndex index rs)
  show ?case
  proof (cases "index < length songArray")
    case True
    from 1 [OF True refl refl refl] True show ?thesis
      by (subst while_loop.simps) (auto simp: Let_def)
  next
    case False
    then show ?thesis
      by (subst while_loop.simps) simp
  qed
qed

lemma while_loop_concat:
  assumes "concat rs \<noteq> []"
  shows "concat (while_loop arrayName songArray owArrayIndex index rs) \<noteq> []"
proof -
  obtain ys where "while_loop arrayName songArray owArrayIndex index rs = rs @ ys"
    using while_loop_extends by blast
  with assms show ?thesis by simp
qed

lemma writeWorkshopRules_not_empty: "writeWorkshopRules arrays maxVoices \<noteq> []"
proof -
  have "concat [config_rule maxVoices] \<noteq> []"
    by (simp add: config_rule_def)
  then show ?thesis
    unfolding writeWorkshopRules_def entries_def foldl.simps prod.case
    by (intro while_loop_concat)
qed

text \<open>
  Claim C7.  When no chord is formed (the chord map that comes back from reading the MIDI
  data is empty), the result of the conversion has the "no notes found" message as its
  errors and the empty string as its rule text, and nothing was written to the console:
  the array builder and the compression, which both write to it, did not run.  The rule
  writer did not run either, since it never returns the empty string.
\<close>

theorem convertMidi_no_notes:
  assumes "chords (readMidiData mid (settings_in_force settings)) = []"
  shows "errors (fst (convertMidi mid settings compressionEnabled)) = [NO_NOTES_FOUND] \<and>
         rules (fst (convertMidi mid settings compressionEnabled)) = [] \<and>
         snd (convertMidi mid settings compressionEnabled) = [] \<and>
         (\<forall>arrays maxVoices. writeWorkshopRules arrays maxVoices \<noteq> [])"
  using assms readMidiData_no_chord [OF assms]
  by (simp add: convertMidi_def Let_def writeWorkshopRules_not_empty)

theorem convertMidi_no_notes_witness:
  "chords (readMidiData \<lparr>midi_file.duration = 0, tracks = [\<lparr>channel = 0, track_notes = []\<rparr>]\<rparr>
      (settings_in_force [])) = [] \<and>
   errors (fst (convertMidi \<lparr>midi_file.duration = 0, tracks = [\<lparr>channel = 0, track_notes = []\<rparr>]\<rparr> [] True))
     = [NO_NOTES_FOUND] \<and>
   rules (fst (convertMidi \<lparr>midi_file.duration = 0, tracks = [\<lparr>channel = 0, track_notes = []\<rparr>]\<rparr> [] True)) = [] \<and>
   snd (convertMidi \<lparr>midi_file.duration = 0, tracks = [\<lparr>channel = 0, track_notes = []\<rparr>]\<rparr> [] True) = []"
proof -
  have h: "chords (readMidiData \<lparr>midi_file.duration = 0, tracks = [\<lparr>channel = 0, track_notes = []\<rparr>]\<rparr>
      (settings_in_force [])) = []"
    by (simp add: readMidiData_def Let_def)
  from convertMidi_no_notes [OF h, of True] h show ?thesis
    by simp
qed

text \<open>
  Claim C10.  When no chord is formed, the stop time of the result is \<^verbatim>\<open>undefined\<close>, while
  the other fields have values: both counters are 0, the duration is that of the MIDI
  object, the warnings hold the type 0 warning exactly when there is one track, and the
  errors hold the "no notes found" message.
\<close>

theorem convertMidi_no_notes_stopTime:
  assumes "chords (readMidiData mid (settings_in_force settings)) = []"
  shows "stopTime (fst (convertMidi mid settings compressionEnabled)) = None \<and>
         skippedNotes (fst (convertMidi mid settings compressionEnabled)) = 0 \<and>
         transposedNotes (fst (convertMidi mid settings compressionEnabled)) = 0 \<and>
         duration (fst (convertMidi mid settings compressionEnabled)) = midi_file.duration mid \<and>
         warnings (fst (convertMidi mid settings compressionEnabled))
           = (if length (tracks mid) = 1 then [TYPE_0_FILE] else []) \<and>
         errors (fst (convertMidi mid settings compressionEnabled)) = [NO_NOTES_FOUND]"
  using assms readMidiData_no_chord [OF assms]
  by (simp add: convertMidi_def Let_def)

theorem convertMidi_no_notes_stopTime_witness:
  "chords (readMidiData
      \<lparr>midi_file.duration = 12, tracks = [\<lparr>channel = 9, track_notes =
        [\<lparr>time = 0, midi = 36, velocity = 1\<rparr>]\<rparr>]\<rparr> (settings_in_force [])) = [] \<and>
   fst (convertMidi
      \<lparr>midi_file.duration = 12, tracks = [\<lparr>channel = 9, track_notes =
        [\<lparr>time = 0, midi = 36, velocity = 1\<rparr>]\<rparr>]\<rparr> [] True)
     = \<lparr>rules = [], skippedNotes = 0, transposedNotes = 0, duration = 12, stopTime = None,
        warnings = [TYPE_0_FILE], errors = [NO_NOTES_FOUND]\<rparr>"
proof -
  let ?mid = "\<lparr>midi_file.duration = 12, tracks = [\<lparr>channel = 9, track_notes =
        [\<lparr>time = 0, midi = 36, velocity = 1\<rparr>]\<rparr>]\<rparr>"
  have h: "chords (readMidiData ?mid (settings_in_force [])) = []"
    by (simp add: readMidiData_def Let_def)
  have r: "rules (fst (convertMidi ?mid [] True)) = []"
    using h by (simp add: convertMidi_def Let_def)
  from convertMidi_no_notes_stopTime [OF h, of True] h r show ?thesis
    by (cases "fst (convertMidi ?mid [] True)") simp
qed

section \<open>The settings in force\<close>

text \<open>
  Claim C9, as stated, fails: a settings object with two keys is used as it is, whatever its
  values.  The object below has \<^verbatim>\<open>voices\<close> 99, outside the range 6 to 11; it stays in force,
  and with it no note of a chord of seven pitches is skipped, while the default settings
  skip one.
\<close>

theorem settings_not_validated_counterexample:
  "\<not> list_all in_range [(''startTime'', 0), (''voices'', 99)] \<and>
   settings_in_force [(''startTime'', 0), (''voices'', 99)]
     = [(''startTime'', 0), (''voices'', 99)] \<and>
   settings_in_force [(''startTime'', 0), (''voices'', 99)] \<noteq> DEFAULT_SETTINGS \<and>
   skippedNotes (fst (convertMidi seven_notes [(''startTime'', 0), (''voices'', 99)] True)) = 0 \<and>
   skippedNotes (fst (convertMidi seven_notes DEFAULT_SETTINGS True)) = 1"
proof -
  have "\<not> list_all in_range [(''startTime'', 0), (''voices'', 99)]"
    by (simp add: in_range_def CONVERTER_SETTINGS_INFO_def)
  moreover have "settings_in_force [(''startTime'', 0), (''voices'', 99)]
      = [(''startTime'', 0), (''voices'', 99)]"
    by (simp add: settings_in_force_def CONVERTER_SETTINGS_INFO_def)
  moreover have "settings_in_force [(''startTime'', 0), (''voices'', 99)] \<noteq> DEFAULT_SETTINGS"
    by (simp add: settings_in_force_def CONVERTER_SETTINGS_INFO_def DEFAULT_SETTINGS_eq)
  moreover have
    "skippedNotes (fst (convertMidi seven_notes [(''startTime'', 0), (''voices'', 99)] True)) = 0"
    by code_simp
  moreover have "skippedNotes (fst (convertMidi seven_notes DEFAULT_SETTINGS True)) = 1"
    by code_simp
  ultimately show ?thesis by simp
qed

text \<open>
  Claim C9, amended.  The conversion checks the number of keys of the settings object and
  nothing else.  An object whose number of keys is not 2 (an empty, a partial or a larger
  object) is replaced by the full default settings, start time 0 and 6 voices, and the
  conversion is the conversion with the defaults.  An object with 2 keys stays in force as
  it is: its values are not validated.
\<close>

theorem settings_fallback:
  "(length settings \<noteq> 2 \<longrightarrow>
      settings_in_force settings = DEFAULT_SETTINGS \<and>
      convertMidi mid settings c = convertMidi mid DEFAULT_SETTINGS c) \<and>
   (length settings = 2 \<longrightarrow> settings_in_force settings = settings) \<and>
   DEFAULT_SETTINGS = [(''startTime'', 0), (''voices'', 6)]"
  by (simp add: settings_in_force_def CONVERTER_SETTINGS_INFO_def convertMidi_def
      DEFAULT_SETTINGS_eq)

theorem settings_fallback_witness:
  "settings_in_force [(''voices'', 8)] = [(''startTime'', 0), (''voices'', 6)] \<and>
   settings_in_force [(''startTime'', 2), (''voices'', 8)] = [(''startTime'', 2), (''voices'', 8)]"
  using settings_fallback [of "[(''voices'', 8)]"]
    settings_fallback [of "[(''startTime'', 2), (''voices'', 8)]"]
  by simp

section \<open>The voice limit of a chord\<close>

lemma set_push_pitch:
  "map_of cs t = Some ps \<Longrightarrow> set (push_pitch t p cs) \<subseteq> insert (t, ps @ [p]) (set cs)"
  by (induction cs) (auto split: if_splits)

lemma add_to_chord_capped:
  assumes v: "map_of settings ''voices'' = Some (of_nat V)" and V: "1 \<le> V"
    and inv: "chords_capped V (chords st)"
  shows "chords_capped V (chords (add_to_chord settings st t p))"
proof (cases "map_of (chords st) t")
  case None
  with inv V show ?thesis
    by (auto simp: add_to_chord_def chords_capped_def)
next
  case (Some ps)
  then have mem: "(t, ps) \<in> set (chords st)"
    by (rule map_of_SomeD)
  show ?thesis
  proof (cases "p \<notin> set ps \<and> length ps < V")
    case True
    from mem inv have "distinct ps"
      by (auto simp: chords_capped_def)
    with True have new: "length (ps @ [p]) \<le> V \<and> distinct (ps @ [p])"
      by simp
    have "chords_capped V (push_pitch t p (chords st))"
      unfolding chords_capped_def
    proof
      fix e assume "e \<in> set (push_pitch t p (chords st))"
      with set_push_pitch [OF Some] have "e = (t, ps @ [p]) \<or> e \<in> set (chords st)"
        by auto
      with new inv show "case e of (t, ps) \<Rightarrow> length ps \<le> V \<and> distinct ps"
        by (auto simp: chords_capped_def)
    qed
    with True Some v show ?thesis
      by (simp add: add_to_chord_def)
  next
    case False
    with Some v inv show ?thesis
      by (auto simp: add_to_chord_def)
  qed
qed

lemma read_note_capped:
  assumes "map_of settings ''voices'' = Some (of_nat V)" and "1 \<le> V"
    and "chords_capped V (chords st)"
  shows "chords_capped V (chords (read_note settings st n))"
  using assms add_to_chord_capped [OF assms(1,2)]
  by (simp add: read_note_def Let_def)

lemma read_notes_capped:
  assumes "map_of settings ''voices'' = Some (of_nat V)" and "1 \<le> V"
  shows "chords_capped V (chords st) \<Longrightarrow> chords_capped V (chords (read_notes settings st ns))"
  by (induction ns arbitrary: st) (simp_all add: read_note_capped [OF assms])

lemma read_tracks_capped:
  assumes "map_of settings ''voices'' = Some (of_nat V)" and "1 \<le> V"
  shows "chords_capped V (chords st) \<Longrightarrow> chords_capped V (chords (read_tracks settings st trs))"
  by (induction trs arbitrary: st) (simp_all add: read_notes_capped [OF assms])

lemma set_insert_by: "set (insert_by cmp x xs) = insert x (set xs)"
  by (induction xs) auto

lemma set_sort_by: "set (sort_by cmp xs) = set xs"
  by (induction xs) (auto simp: set_insert_by)

lemma readMidiData_capped:
  assumes "map_of settings ''voices'' = Some (of_nat V)" and "1 \<le> V"
  shows "chords_capped V (chords (readMidiData mid settings))"
proof -
  have "chords_capped V (chords \<lparr>chords = [], read_state.skippedNotes = 0,
      read_state.transposedNotes = 0\<rparr>)"
    by (simp add: chords_capped_def)
  then have "chords_capped V (chords (read_tracks settings \<lparr>chords = [],
      read_state.skippedNotes = 0, read_state.transposedNotes = 0\<rparr> (tracks mid)))"
    by (rule read_tracks_capped [OF assms])
  then show ?thesis
    by (simp add: readMidiData_def Let_def chords_capped_def set_sort_by)
qed

text \<open>
  Claim C5.  Let the voice limit be an integer \<open>V\<close> of at least 1 (the settings allow 6 to
  11).  Then no chord that comes back from reading the MIDI data has more than \<open>V\<close>
  pitches, and the pitches of a chord are distinct.  A pitch that is new to its chord and
  arrives when the chord holds \<open>V\<close> pitches changes nothing but the counter of skipped
  notes, which grows by one; a pitch that its chord already includes changes nothing at all.
\<close>

theorem voice_cap:
  assumes "map_of settings ''voices'' = Some (of_nat V)" and "1 \<le> V"
  shows "(\<forall>(t, ps) \<in> set (chords (readMidiData mid settings)). length ps \<le> V \<and> distinct ps) \<and>
    (map_of (chords st) noteTime = Some ps \<and> notePitch \<notin> set ps \<and> V \<le> length ps \<longrightarrow>
       add_to_chord settings st noteTime notePitch
         = st\<lparr>read_state.skippedNotes := read_state.skippedNotes st + 1\<rparr>) \<and>
    (map_of (chords st) noteTime = Some ps \<and> notePitch \<in> set ps \<longrightarrow>
       add_to_chord settings st noteTime notePitch = st)"
proof (intro conjI impI)
  show "\<forall>(t, ps) \<in> set (chords (readMidiData mid settings)). length ps \<le> V \<and> distinct ps"
    using readMidiData_capped [OF assms] by (simp add: chords_capped_def)
next
  assume "map_of (chords st) noteTime = Some ps \<and> notePitch \<notin> set ps \<and> V \<le> length ps"
  with assms(1) show "add_to_chord settings st noteTime notePitch
      = st\<lparr>read_state.skippedNotes := read_state.skippedNotes st + 1\<rparr>"
    by (simp add: add_to_chord_def)
next
  assume "map_of (chords st) noteTime = Some ps \<and> notePitch \<in> set ps"
  then show "add_to_chord settings st noteTime notePitch = st"
    by (simp add: add_to_chord_def)
qed

theorem voice_cap_witness:
  "map_of DEFAULT_SETTINGS ''voices'' = Some (of_nat 6) \<and>
   chords (readMidiData seven_notes DEFAULT_SETTINGS) = [(0, [36, 37, 38, 39, 40, 41])] \<and>
   length [36, 37, 38, 39, 40, 41 :: int] \<le> 6 \<and>
   add_to_chord DEFAULT_SETTINGS
       \<lparr>chords = [(0, [36, 37, 38, 39, 40, 41])], read_state.skippedNotes = 0,
        read_state.transposedNotes = 0\<rparr> 0 42
     = \<lparr>chords = [(0, [36, 37, 38, 39, 40, 41])], read_state.skippedNotes = 1,
        read_state.transposedNotes = 0\<rparr> \<and>
   add_to_chord DEFAULT_SETTINGS
       \<lparr>chords = [(0, [36, 37, 38, 39, 40, 41])], read_state.skippedNotes = 0,
        read_state.transposedNotes = 0\<rparr> 0 38
     = \<lparr>chords = [(0, [36, 37, 38, 39, 40, 41])], read_state.skippedNotes = 0,
        read_state.transposedNotes = 0\<rparr>"
proof -
  let ?st = "\<lparr>chords = [(0, [36, 37, 38, 39, 40, 41])], read_state.skippedNotes = 0,
        read_state.transposedNotes = 0\<rparr>"
  have v: "map_of DEFAULT_SETTINGS ''voices'' = Some (of_nat 6)"
    by (simp add: DEFAULT_SETTINGS_eq)
  have V: "1 \<le> (6 :: nat)"
    by simp
  have c: "chords (readMidiData seven_notes DEFAULT_SETTINGS) = [(0, [36, 37, 38, 39, 40, 41])]"
    by code_simp
  from voice_cap [OF v V, of seven_notes ?st 0 "[36, 37, 38, 39, 40, 41]" 42]
    voice_cap [OF v V, of seven_notes ?st 0 "[36, 37, 38, 39, 40, 41]" 38] v c
  show ?thesis
    by simp
qed

section \<open>The order of the pitches of a chord\<close>

text \<open>
  Claim C3 fails on the code: \<^verbatim>\<open>pitches.sort()\<close> has no comparator and so orders the pitches
  as strings.  The chord of the pitches 9 and 10 (the MIDI notes 33 and 34) is written to
  the pitch array as 10, 9.
\<close>

theorem pitches_sorted_as_strings:
  "chords (readMidiData low_notes DEFAULT_SETTINGS) = [(0, [9, 10])] \<and>
   pitchArrays (array_info.owArrays
     (fst (convertToArray (chords (readMidiData low_notes DEFAULT_SETTINGS)) True))) = [10, 9]"
  by code_simp

section \<open>The rules of an array with one element\<close>

text \<open>
  Claim C6 fails on the code: the inner loop of \<^verbatim>\<open>writeWorkshopRules\<close> appends an element
  before it tests for the end of the array.  For the example of two chords, the compressed
  pitch array and chord array have one element each, and their rules hold \<^verbatim>\<open>undefined\<close> as
  a second element.
\<close>

theorem rules_with_undefined:
  \<open>fst (compressSongArrays (array_info.owArrays
      (fst (convertToArray (chords (readMidiData spec_example DEFAULT_SETTINGS)) True))))
     = \<lparr>pitchArrays = [''364043''], timeArrays = [''0000050'', ''0''], chordArrays = [''21'']\<rparr> \<and>
   rules (fst (convertMidi spec_example [] True)) =
     ''rule("Max amount of bots required"){event{Ongoing-Global;}actions{Global.maxBots = 6;Global.maxArraySize = 999;\<newline>    Global.compressedElementSize = 7;}}\<newline>''
     @ ''rule("pitchArrays"){event{Ongoing-Global;}actions{Global.pitchArrays[0] = Array(364043, undefined);}}\<newline>''
     @ ''rule("timeArrays"){event{Ongoing-Global;}actions{Global.timeArrays[0] = Array(0000050, 0);}}\<newline>''
     @ ''rule("chordArrays"){event{Ongoing-Global;}actions{Global.chordArrays[0] = Array(21, undefined);}}\<newline>''\<close>
  by code_simp

section \<open>Compression can be undone\<close>

lemma digit_value_digit_char: "d < 10 \<Longrightarrow> digit_value (digit_char d) = d"
proof -
  assume "d < 10"
  then have "d \<in> {0, 1, 2, 3, 4, 5, 6, 7, 8, 9}"
    by auto
  then show ?thesis
    by (auto simp: digit_value_def digit_char_def)
qed

lemma read_decimal_snoc: "read_decimal (s @ [c]) = read_decimal s * 10 + digit_value c"
  by (simp add: read_decimal_def)

lemma read_decimal_digits: "read_decimal (digits n) = n"
proof (induction n rule: digits.induct)
  case (1 n)
  show ?case
  proof (cases "n < 10")
    case True
    then show ?thesis
      by (subst digits.simps) (simp add: read_decimal_def digit_value_digit_char)
  next
    case False
    with 1 have "read_decimal (digits (n div 10)) = n div 10"
      by simp
    with False show ?thesis
      by (subst digits.simps) (simp add: read_decimal_snoc digit_value_digit_char)
  qed
qed

lemma read_decimal_zeros: "read_decimal (replicate k CHR ''0'' @ s) = read_decimal s"
proof (induction k)
  case 0
  show ?case by simp
next
  case (Suc k)
  have "foldl (\<lambda>acc c. acc * 10 + digit_value c) 0 (CHR ''0'' # replicate k CHR ''0'' @ s)
      = foldl (\<lambda>acc c. acc * 10 + digit_value c) 0 (replicate k CHR ''0'' @ s)"
    by (simp add: digit_value_def)
  with Suc show ?case
    by (simp add: read_decimal_def)
qed

lemma read_decimal_padStart: "read_decimal (padStart w (digits n)) = n"
  by (simp add: padStart_def read_decimal_zeros read_decimal_digits)

lemma length_digits: "0 < k \<Longrightarrow> n < 10 ^ k \<Longrightarrow> length (digits n) \<le> k"
proof (induction n arbitrary: k rule: digits.induct)
  case (1 n)
  show ?case
  proof (cases "n < 10")
    case True
    with 1 show ?thesis
      by (subst digits.simps) simp
  next
    case False
    with 1(2,3) have k: "1 < k"
      by (cases "k = 1") auto
    then obtain j where j: "k = Suc j" "0 < j"
      by (cases k) auto
    with 1(3) have "n div 10 < 10 ^ j"
      by (simp add: less_mult_imp_div_less mult.commute)
    with 1(1) [OF False \<open>0 < j\<close>] have "length (digits (n div 10)) \<le> j"
      by simp
    with False j show ?thesis
      by (subst digits.simps) simp
  qed
qed

lemma length_padStart: "length s \<le> w \<Longrightarrow> length (padStart w s) = w"
  by (simp add: padStart_def)

lemma number_toString_nat: "number_toString (of_nat n) = digits n"
  by (simp add: number_toString_def Let_def)

lemma fields_concat:
  assumes "0 < w" and "\<forall>x \<in> set xs. length x = w"
  shows "fields w (concat xs) = xs"
  using assms(2)
proof (induction xs)
  case Nil
  show ?case by (subst fields.simps) simp
next
  case (Cons x xs)
  with assms(1) have "x \<noteq> []" by auto
  with Cons assms(1) show ?case
    by (subst fields.simps) simp
qed

lemma slice_loop_concat:
  "concat (slice_loop stringBuffer i compressed) = concat compressed @ drop i stringBuffer"
proof (induction stringBuffer i compressed rule: slice_loop.induct)
  case (1 stringBuffer i compressed)
  show ?case
  proof (cases "i < length stringBuffer")
    case True
    have "take COMPRESSED_ELEMENT_LENGTH (drop i stringBuffer)
        @ drop (i + COMPRESSED_ELEMENT_LENGTH) stringBuffer = drop i stringBuffer"
      by (metis add.commute append_take_drop_id drop_drop)
    with True 1 show ?thesis
      by (subst slice_loop.simps) (simp add: slice_def)
  next
    case False
    then show ?thesis
      by (subst slice_loop.simps) simp
  qed
qed

lemma unpack_compress_array:
  assumes w: "0 < element_length arrayName"
    and fit: "\<forall>x \<in> set xs. x \<in> \<nat> \<and> x < 10 ^ element_length arrayName"
  shows "unpack (element_length arrayName) (compress_array arrayName xs) = xs"
proof -
  let ?w = "element_length arrayName"
  let ?pad = "\<lambda>x. padStart ?w (number_toString x)"
  have len: "\<forall>s \<in> set (map ?pad xs). length s = ?w"
  proof
    fix s assume "s \<in> set (map ?pad xs)"
    then obtain x where x: "x \<in> set xs" "s = ?pad x" by auto
    with fit obtain n where n: "x = of_nat n" "x < 10 ^ ?w"
      by (auto simp: Nats_def)
    then have "(of_nat n :: rat) < of_nat (10 ^ ?w)" by simp
    then have "n < 10 ^ ?w" by (simp only: of_nat_less_iff)
    with w have "length (digits n) \<le> ?w" by (simp add: length_digits)
    with x n show "length s = ?w"
      by (simp add: number_toString_nat length_padStart)
  qed
  have val: "map (\<lambda>field. of_nat (read_decimal field)) (map ?pad xs) = xs"
  proof -
    have "of_nat (read_decimal (?pad x)) = x" if "x \<in> set xs" for x
    proof -
      from that fit obtain n where "x = of_nat n" by (auto simp: Nats_def)
      then show ?thesis
        by (simp add: number_toString_nat read_decimal_padStart)
    qed
    then show ?thesis
      by (simp add: map_idI)
  qed
  have "concat (compress_array arrayName xs) = concat (map ?pad xs)"
    by (simp add: compress_array_def Let_def slice_loop_concat)
  then have "unpack ?w (compress_array arrayName xs)
      = map (\<lambda>field. of_nat (read_decimal field)) (fields ?w (concat (map ?pad xs)))"
    by (simp add: unpack_def)
  also have "fields ?w (concat (map ?pad xs)) = map ?pad xs"
    using w len by (rule fields_concat)
  finally show ?thesis
    using val by simp
qed

text \<open>
  Claim C1.  Let every pitch be a natural number of at most 99, every chord size one of at
  most 9 and every time interval one of at most 9999.  Then decoding the compressed arrays,
  with fields of 2, 1 and 4 digits, gives back the pitches, the chord sizes and the time
  intervals.
\<close>

theorem pack_unpack:
  assumes "\<forall>x \<in> set (pitchArrays a). x \<in> \<nat> \<and> x \<le> 99"
    and "\<forall>x \<in> set (chordArrays a). x \<in> \<nat> \<and> x \<le> 9"
    and "\<forall>x \<in> set (timeArrays a). x \<in> \<nat> \<and> x \<le> 9999"
  shows "unpack 2 (pitchArrays (fst (compressSongArrays a))) = pitchArrays a \<and>
         unpack 1 (chordArrays (fst (compressSongArrays a))) = chordArrays a \<and>
         unpack 4 (timeArrays (fst (compressSongArrays a))) = timeArrays a"
proof -
  have w: "element_length ''pitchArrays'' = 2" "element_length ''chordArrays'' = 1"
    "element_length ''timeArrays'' = 4"
    by (simp_all add: element_length_def SONG_DATA_ELEMENT_LENGTHS_def)
  have p: "unpack (element_length ''pitchArrays'')
      (compress_array ''pitchArrays'' (pitchArrays a)) = pitchArrays a"
    using assms(1) by (intro unpack_compress_array) (auto simp: w)
  have c: "unpack (element_length ''chordArrays'')
      (compress_array ''chordArrays'' (chordArrays a)) = chordArrays a"
    using assms(2) by (intro unpack_compress_array) (auto simp: w)
  have t: "unpack (element_length ''timeArrays'')
      (compress_array ''timeArrays'' (timeArrays a)) = timeArrays a"
    using assms(3) by (intro unpack_compress_array) (auto simp: w)
  from p c t show ?thesis
    by (simp add: compressSongArrays_def Let_def w)
qed

theorem pack_unpack_witness:
  "fst (compressSongArrays \<lparr>pitchArrays = [36, 40, 43], timeArrays = [0, 500],
      chordArrays = [2, 1]\<rparr>)
     = \<lparr>pitchArrays = [''364043''], timeArrays = [''0000050'', ''0''], chordArrays = [''21'']\<rparr> \<and>
   unpack 2 [''364043''] = [36, 40, 43] \<and>
   unpack 1 [''21''] = [2, 1] \<and>
   unpack 4 [''0000050'', ''0''] = [0, 500]"
proof -
  let ?a = "\<lparr>pitchArrays = [36, 40, 43], timeArrays = [0, 500], chordArrays = [2, 1 :: rat]\<rparr>"
  have packed: "fst (compressSongArrays ?a)
      = \<lparr>pitchArrays = [''364043''], timeArrays = [''0000050'', ''0''], chordArrays = [''21'']\<rparr>"
    by code_simp
  have "\<forall>x \<in> set (pitchArrays ?a). x \<in> \<nat> \<and> x \<le> 99"
    and "\<forall>x \<in> set (chordArrays ?a). x \<in> \<nat> \<and> x \<le> 9"
    and "\<forall>x \<in> set (timeArrays ?a). x \<in> \<nat> \<and> x \<le> 9999"
    by simp_all
  from pack_unpack [OF this] packed show ?thesis
    by simp
qed

section \<open>The total amount of array elements\<close>

text \<open>
  Without compression the array builder counts the elements themselves, and the arrays it
  returns have at most the maximum amount of elements in all.
\<close>

lemma chord_loop_uncompressed:
  assumes "counted st" and "total_elements (build_state.owArrays st) \<le> MAX_TOTAL_ARRAY_ELEMENTS"
  shows "total_elements (build_state.owArrays (chord_loop False cs st))
    \<le> MAX_TOTAL_ARRAY_ELEMENTS"
  using assms
proof (induction cs arbitrary: st)
  case Nil
  then show ?case by simp
next
  case (Cons ch cs)
  obtain t ps where ch: "ch = (t, ps)" by (cases ch)
  define st1 where "st1 = count_chord st ps"
  show ?case
  proof (cases "size_exceeded False st1")
    case True
    with Cons.prems(2) show ?thesis
      by (simp add: ch Let_def st1_def [symmetric]) (simp add: st1_def count_chord_def Let_def)
  next
    case False
    define st2 where "st2 = write_chord st1 t ps"
    from Cons.prems(1) have c2: "counted st2"
      by (simp add: counted_def st2_def st1_def write_chord_def count_chord_def Let_def
          length_sort_default)
    from Cons.prems(1) have "total_elements (build_state.owArrays st2) = uncompressedSize st1"
      by (simp add: counted_def total_elements_def st2_def st1_def write_chord_def
          count_chord_def Let_def length_sort_default)
    with False have "total_elements (build_state.owArrays st2) \<le> MAX_TOTAL_ARRAY_ELEMENTS"
      by (simp add: size_exceeded_def)
    with c2 have "total_elements (build_state.owArrays (chord_loop False cs st2))
        \<le> MAX_TOTAL_ARRAY_ELEMENTS"
      by (rule Cons.IH)
    with False show ?thesis
      by (simp add: ch Let_def st1_def [symmetric] st2_def [symmetric])
  qed
qed

lemma uncompressed_total_within_maximum:
  "total_elements (array_info.owArrays (fst (convertToArray chordMap False)))
     \<le> MAX_TOTAL_ARRAY_ELEMENTS"
proof (cases chordMap)
  case Nil
  then show ?thesis
    by (simp add: convertToArray_def total_elements_def)
next
  case (Cons first rest)
  define init where "init = \<lparr>build_state.owArrays =
      \<lparr>pitchArrays = [], timeArrays = [], chordArrays = []\<rparr>,
      pitchArrayElements = 0, timeArrayElements = 0, chordArrayElements = 0,
      uncompressedSize = 0, compressedSize = 0,
      prevTime = fst first, build_state.stopTime = 0\<rparr>"
  have "total_elements (build_state.owArrays (chord_loop False chordMap init))
      \<le> MAX_TOTAL_ARRAY_ELEMENTS"
    by (rule chord_loop_uncompressed) (simp_all add: init_def counted_def total_elements_def)
  then show ?thesis
    by (simp add: convertToArray_def Cons Let_def init_def [symmetric])
qed

text \<open>
  With compression the builder compares an estimate with the maximum.  The rest of this
  section runs the conversion on a song of \<open>n\<close> chords of one pitch each.
\<close>

lemma map_of_one_note_chords:
  "map_of (map one_note_chord [0..<i]) (of_nat i :: rat) = None"
  by (simp add: map_of_eq_None_iff image_iff)

lemma read_note_long_song:
  assumes "chords st = map one_note_chord [0..<i]"
  shows "read_note DEFAULT_SETTINGS st \<lparr>time = of_nat i, midi = 60, velocity = 1\<rparr>
    = st\<lparr>chords := map one_note_chord [0..<Suc i]\<rparr>"
  using assms map_of_one_note_chords [of i]
  by (simp add: read_note_def DEFAULT_SETTINGS_eq outside_range_def PIANO_MIN_def PIANO_MAX_def
      roundToPlaces_of_nat add_to_chord_def Let_def)

lemma read_notes_long_song:
  assumes "chords st = map one_note_chord [0..<i]" and "i \<le> n"
  shows "read_notes DEFAULT_SETTINGS st
           (map (\<lambda>i. \<lparr>time = of_nat i, midi = 60, velocity = 1\<rparr>) [i..<n])
    = st\<lparr>chords := map one_note_chord [0..<n]\<rparr>"
  using assms
proof (induction "n - i" arbitrary: i st)
  case 0
  then show ?case by simp
next
  case (Suc d)
  then have lt: "i < n" by simp
  let ?st = "st\<lparr>chords := map one_note_chord [0..<Suc i]\<rparr>"
  have "read_notes DEFAULT_SETTINGS ?st
           (map (\<lambda>i. \<lparr>time = of_nat i, midi = 60, velocity = 1\<rparr>) [Suc i..<n])
    = ?st\<lparr>chords := map one_note_chord [0..<n]\<rparr>"
    using Suc.hyps(2) lt by (intro Suc.hyps(1)) simp_all
  with lt Suc.prems(1) show ?case
    by (simp add: upt_conv_Cons read_note_long_song del: upt_Suc)
qed

lemma compare_times_next: "\<not> compare_times (one_note_chord i) (one_note_chord (Suc i)) > 0"
proof -
  have "roundToPlaces (of_int (- 1)) NOTE_PRECISION = of_int (- 1)"
    by (rule roundToPlaces_of_int)
  then show ?thesis
    by (simp add: compare_times_def)
qed

lemma sort_by_long_song:
  "sort_by compare_times (map one_note_chord [i..<n]) = map one_note_chord [i..<n]"
proof (induction "n - i" arbitrary: i)
  case 0
  then show ?case by simp
next
  case (Suc d)
  then have lt: "i < n" by simp
  from Suc have IH: "sort_by compare_times (map one_note_chord [Suc i..<n])
      = map one_note_chord [Suc i..<n]"
    by simp
  show ?case
  proof (cases "Suc i < n")
    case True
    with lt IH compare_times_next [of i] show ?thesis
      by (simp add: upt_conv_Cons del: upt_Suc)
  next
    case False
    with lt show ?thesis
      by (simp add: upt_conv_Cons del: upt_Suc)
  qed
qed

lemma readMidiData_long_song:
  assumes "0 < n"
  shows "chords (readMidiData (long_song n) DEFAULT_SETTINGS) = map one_note_chord [0..<n]"
proof -
  have "read_notes DEFAULT_SETTINGS
      \<lparr>chords = [], read_state.skippedNotes = 0, read_state.transposedNotes = 0\<rparr>
      (map (\<lambda>i. \<lparr>time = of_nat i, midi = 60, velocity = 1\<rparr>) [0..<n])
    = \<lparr>chords = [], read_state.skippedNotes = 0, read_state.transposedNotes = 0\<rparr>
        \<lparr>chords := map one_note_chord [0..<n]\<rparr>"
    by (rule read_notes_long_song) simp_all
  with assms show ?thesis
    by (simp add: readMidiData_def long_song_def Let_def sort_by_long_song)
qed


lemma ceiling_sevenths: "nat \<lceil>(of_nat (7 * k) :: rat) / of_nat COMPRESSED_ELEMENT_LENGTH\<rceil> = k"
  by (simp add: COMPRESSED_ELEMENT_LENGTH_def)

lemma count_chord_long_song:
  assumes "pitchArrayElements st = k" "timeArrayElements st = k" "chordArrayElements st = k"
  shows "count_chord st [36]
    = st\<lparr>pitchArrayElements := Suc k, timeArrayElements := Suc k, chordArrayElements := Suc k,
         uncompressedSize := 3 * Suc k, compressedSize := Suc k\<rparr>"
proof -
  have "(Suc k) * 2 + (Suc k) * 4 + (Suc k) * 1 = 7 * Suc k"
    by simp
  then have "nat \<lceil>(of_nat ((Suc k) * 2 + (Suc k) * 4 + (Suc k) * 1) :: rat)
      / of_nat COMPRESSED_ELEMENT_LENGTH\<rceil> = Suc k"
    by (simp only: ceiling_sevenths)
  with assms show ?thesis
    by (simp add: count_chord_def Let_def element_lengths)
qed

lemma sort_default_single: "sort_default [p] = [p]"
  by (simp add: sort_default_def)

lemma interval_long_song:
  "min (roundToPlaces ((of_nat (Suc k) - of_nat k) * 1000) NOTE_PRECISION) MAX_TIME_INTERVAL = 1000"
proof -
  have "roundToPlaces (of_int 1000) NOTE_PRECISION = of_int 1000"
    by (rule roundToPlaces_of_int)
  then show ?thesis
    by (simp add: MAX_TIME_INTERVAL_def)
qed

lemma chord_loop_long_song:
  assumes "pitchArrayElements st = Suc k" "timeArrayElements st = Suc k"
    "chordArrayElements st = Suc k" "prevTime st = of_nat k" "compressedSize st = Suc k"
    "uncompressedSize st = 3 * Suc k"
    and "Suc k \<le> n" "n \<le> MAX_TOTAL_ARRAY_ELEMENTS"
  shows "chord_loop True (map one_note_chord [Suc k..<n]) st
    = st\<lparr>pitchArrayElements := n, timeArrayElements := n, chordArrayElements := n,
         uncompressedSize := 3 * n, compressedSize := n,
         build_state.owArrays :=
           \<lparr>pitchArrays = pitchArrays (build_state.owArrays st) @ replicate (n - Suc k) 36,
            timeArrays = timeArrays (build_state.owArrays st) @ replicate (n - Suc k) 1000,
            chordArrays = chordArrays (build_state.owArrays st) @ replicate (n - Suc k) 1\<rparr>,
         prevTime := of_nat (n - 1)\<rparr>"
  using assms
proof (induction "n - Suc k" arbitrary: k st)
  case 0
  then have "n = Suc k" by simp
  with 0 show ?case by simp
next
  case (Suc d)
  then have lt: "Suc k < n" by simp
  define st1 where "st1 = count_chord st [36]"
  have st1: "st1 = st\<lparr>pitchArrayElements := Suc (Suc k), timeArrayElements := Suc (Suc k),
      chordArrayElements := Suc (Suc k), uncompressedSize := 3 * Suc (Suc k),
      compressedSize := Suc (Suc k)\<rparr>"
    unfolding st1_def using Suc.prems(1-3) by (rule count_chord_long_song)
  have ok: "\<not> size_exceeded True st1"
    using lt Suc.prems(8) by (simp add: st1 size_exceeded_def)
  define st2 where "st2 = write_chord st1 (of_nat (Suc k)) [36]"
  have st2: "st2 = st1\<lparr>build_state.owArrays :=
        \<lparr>pitchArrays = pitchArrays (build_state.owArrays st) @ [36],
         timeArrays = timeArrays (build_state.owArrays st) @ [1000],
         chordArrays = chordArrays (build_state.owArrays st) @ [1]\<rparr>,
      prevTime := of_nat (Suc k)\<rparr>"
    unfolding st2_def using Suc.prems(4) interval_long_song [of k]
    by (simp add: write_chord_def Let_def st1 sort_default_single)
  have step: "chord_loop True (map one_note_chord [Suc k..<n]) st
      = chord_loop True (map one_note_chord [Suc (Suc k)..<n]) st2"
    using lt ok by (simp add: upt_conv_Cons [of "Suc k"] Let_def st1_def st2_def del: upt_Suc)
  have "chord_loop True (map one_note_chord [Suc (Suc k)..<n]) st2
    = st2\<lparr>pitchArrayElements := n, timeArrayElements := n, chordArrayElements := n,
         uncompressedSize := 3 * n, compressedSize := n,
         build_state.owArrays :=
           \<lparr>pitchArrays = pitchArrays (build_state.owArrays st2) @ replicate (n - Suc (Suc k)) 36,
            timeArrays = timeArrays (build_state.owArrays st2) @ replicate (n - Suc (Suc k)) 1000,
            chordArrays = chordArrays (build_state.owArrays st2) @ replicate (n - Suc (Suc k)) 1\<rparr>,
         prevTime := of_nat (n - 1)\<rparr>"
  proof (rule Suc.hyps(1))
    show "d = n - Suc (Suc k)" using Suc.hyps(2) by simp
    show "pitchArrayElements st2 = Suc (Suc k)" "timeArrayElements st2 = Suc (Suc k)"
      "chordArrayElements st2 = Suc (Suc k)" "compressedSize st2 = Suc (Suc k)"
      "uncompressedSize st2 = 3 * Suc (Suc k)"
      by (simp_all add: st2 st1)
    show "prevTime st2 = of_nat (Suc k)" by (simp add: st2)
    show "Suc (Suc k) \<le> n" using lt by simp
    show "n \<le> MAX_TOTAL_ARRAY_ELEMENTS" by (rule Suc.prems(8))
  qed
  moreover have "replicate (n - Suc k) x = x # replicate (n - Suc (Suc k)) x" for x :: rat
    using lt by (cases "n - Suc k") (simp_all add: Suc_diff_Suc)
  ultimately show ?case
    unfolding step by (simp add: st2 st1)
qed


lemma convertToArray_long_song:
  assumes "0 < n" "n \<le> MAX_TOTAL_ARRAY_ELEMENTS"
  shows "convertToArray (map one_note_chord [0..<n]) True
    = (\<lparr>array_info.owArrays =
          \<lparr>pitchArrays = 36 # replicate (n - 1) 36,
           timeArrays = 0 # replicate (n - 1) 1000,
           chordArrays = 1 # replicate (n - 1) 1\<rparr>,
        array_info.stopTime = Some (of_nat (n - 1))\<rparr>, [LogNumber n])"
proof -
  define init where "init = \<lparr>build_state.owArrays =
      \<lparr>pitchArrays = [], timeArrays = [], chordArrays = []\<rparr>,
      pitchArrayElements = 0, timeArrayElements = 0, chordArrayElements = 0,
      uncompressedSize = 0, compressedSize = 0,
      prevTime = 0, build_state.stopTime = 0\<rparr>"
  define st1 where "st1 = count_chord init [36]"
  have st1: "st1 = init\<lparr>pitchArrayElements := Suc 0, timeArrayElements := Suc 0,
      chordArrayElements := Suc 0, uncompressedSize := 3 * Suc 0, compressedSize := Suc 0\<rparr>"
    unfolding st1_def by (rule count_chord_long_song) (simp_all add: init_def)
  have ok: "\<not> size_exceeded True st1"
    by (simp add: st1 size_exceeded_def MAX_TOTAL_ARRAY_ELEMENTS_def)
  define st2 where "st2 = write_chord st1 0 [36]"
  have "roundToPlaces (of_int 0) NOTE_PRECISION = of_int 0"
    by (rule roundToPlaces_of_int)
  then have st2: "st2 = st1\<lparr>build_state.owArrays :=
        \<lparr>pitchArrays = [36], timeArrays = [0], chordArrays = [1]\<rparr>, prevTime := 0\<rparr>"
    unfolding st2_def
    by (simp add: write_chord_def Let_def st1 init_def sort_default_single MAX_TIME_INTERVAL_def)
  have upt: "[0..<n] = 0 # [Suc 0..<n]"
    using assms(1) by (simp add: upt_conv_Cons del: upt_Suc)
  have step: "chord_loop True (map one_note_chord [0..<n]) init
      = chord_loop True (map one_note_chord [Suc 0..<n]) st2"
    using ok by (simp add: upt Let_def st1_def st2_def del: upt_Suc)
  have loop: "chord_loop True (map one_note_chord [Suc 0..<n]) st2
    = st2\<lparr>pitchArrayElements := n, timeArrayElements := n, chordArrayElements := n,
         uncompressedSize := 3 * n, compressedSize := n,
         build_state.owArrays :=
           \<lparr>pitchArrays = pitchArrays (build_state.owArrays st2) @ replicate (n - Suc 0) 36,
            timeArrays = timeArrays (build_state.owArrays st2) @ replicate (n - Suc 0) 1000,
            chordArrays = chordArrays (build_state.owArrays st2) @ replicate (n - Suc 0) 1\<rparr>,
         prevTime := of_nat (n - 1)\<rparr>"
    using assms by (intro chord_loop_long_song) (simp_all add: st2 st1 init_def)
  have last: "fst (last (map one_note_chord [0..<n])) = of_nat (n - 1)"
    using assms(1) by (cases n) (simp_all add: last_map)
  show ?thesis
    unfolding convertToArray_def
    using last step loop
    by (simp add: upt init_def [symmetric] del: upt_Suc) (simp add: st2 st1 init_def)
qed

lemma sevenths_step:
  fixes m :: nat
  assumes "0 < m"
  shows "(m + 6) div 7 = Suc ((m - 7 + 6) div 7)"
proof (cases "m < 7")
  case True
  with assms have "(m + 6) div 7 = 1"
    by (intro div_nat_eqI) simp_all
  with True show ?thesis
    by simp
next
  case False
  then obtain k where "m = k + 7"
    using le_Suc_ex [of 7 m] by (auto simp: add.commute)
  then show ?thesis
    by simp
qed

lemma length_slice_loop:
  "length (slice_loop stringBuffer i compressed)
     = length compressed + (length stringBuffer - i + 6) div 7"
proof (induction stringBuffer i compressed rule: slice_loop.induct)
  case (1 stringBuffer i compressed)
  show ?case
  proof (cases "i < length stringBuffer")
    case True
    have "length (slice_loop stringBuffer i compressed)
        = length (slice_loop stringBuffer (i + COMPRESSED_ELEMENT_LENGTH)
            (compressed @ [slice stringBuffer i (i + COMPRESSED_ELEMENT_LENGTH)]))"
      using True by (subst slice_loop.simps) (simp only: if_True)
    also have "\<dots> = length (compressed @ [slice stringBuffer i (i + COMPRESSED_ELEMENT_LENGTH)])
        + (length stringBuffer - (i + COMPRESSED_ELEMENT_LENGTH) + 6) div 7"
      using True by (rule 1)
    also have "\<dots> = length compressed + Suc ((length stringBuffer - i - 7 + 6) div 7)"
      by (simp only: COMPRESSED_ELEMENT_LENGTH_def length_append list.size add_Suc_right
          add_0_right add_Suc diff_diff_left)
    also have "Suc ((length stringBuffer - i - 7 + 6) div 7) = (length stringBuffer - i + 6) div 7"
      using True by (intro sevenths_step [symmetric]) simp
    finally show ?thesis .
  next
    case False
    then have "slice_loop stringBuffer i compressed = compressed"
      by (subst slice_loop.simps) simp
    moreover from False have "length stringBuffer - i = 0"
      by simp
    ultimately show ?thesis
      by simp
  qed
qed

lemma length_concat_fixed:
  "\<forall>s \<in> set xs. length s = w \<Longrightarrow> length (concat xs) = w * length xs"
  by (induction xs) auto

lemma length_padded_nat:
  assumes "0 < w" "n < 10 ^ w"
  shows "length (padStart w (number_toString (of_nat n))) = w"
  using assms by (simp add: number_toString_nat length_padStart length_digits)

lemma length_compress_array:
  assumes "0 < element_length arrayName"
    and "\<forall>x \<in> set xs. \<exists>n < 10 ^ element_length arrayName. x = of_nat n"
  shows "length (compress_array arrayName xs)
    = (element_length arrayName * length xs + 6) div 7"
proof -
  have "\<forall>s \<in> set (map (\<lambda>x. padStart (element_length arrayName) (number_toString x)) xs).
      length s = element_length arrayName"
    using assms by (auto simp: length_padded_nat)
  then have "length (concat (map (\<lambda>x. padStart (element_length arrayName) (number_toString x)) xs))
      = element_length arrayName * length xs"
    using length_concat_fixed by fastforce
  then show ?thesis
    by (simp add: compress_array_def Let_def length_slice_loop)
qed

lemma compress_long_song:
  assumes "0 < n"
  shows "length (compress_array ''pitchArrays'' (36 # replicate (n - 1) 36)) = (2 * n + 6) div 7"
    and "length (compress_array ''timeArrays'' (0 # replicate (n - 1) 1000)) = (4 * n + 6) div 7"
    and "length (compress_array ''chordArrays'' (1 # replicate (n - 1) 1)) = (n + 6) div 7"
proof -
  have "\<exists>k < 10 ^ 2. (36 :: rat) = of_nat k"
    by (rule exI [of _ 36]) simp
  then have "\<forall>x \<in> set (36 # replicate (n - 1) (36 :: rat)).
      \<exists>k < 10 ^ element_length ''pitchArrays''. x = of_nat k"
    by (simp add: element_lengths)
  then have "length (compress_array ''pitchArrays'' (36 # replicate (n - 1) 36))
      = (element_length ''pitchArrays'' * length (36 # replicate (n - 1) (36 :: rat)) + 6) div 7"
    by (intro length_compress_array) (simp_all add: element_lengths)
  with assms show "length (compress_array ''pitchArrays'' (36 # replicate (n - 1) 36))
      = (2 * n + 6) div 7"
    by (simp add: element_lengths)
  have "\<exists>k < 10 ^ 4. (0 :: rat) = of_nat k" "\<exists>k < 10 ^ 4. (1000 :: rat) = of_nat k"
    by (rule exI [of _ 0], simp, rule exI [of _ 1000], simp)
  then have "\<forall>x \<in> set (0 # replicate (n - 1) (1000 :: rat)).
      \<exists>k < 10 ^ element_length ''timeArrays''. x = of_nat k"
    by (simp add: element_lengths)
  then have "length (compress_array ''timeArrays'' (0 # replicate (n - 1) 1000))
      = (element_length ''timeArrays'' * length (0 # replicate (n - 1) (1000 :: rat)) + 6) div 7"
    by (intro length_compress_array) (simp_all add: element_lengths)
  with assms show "length (compress_array ''timeArrays'' (0 # replicate (n - 1) 1000))
      = (4 * n + 6) div 7"
    by (simp add: element_lengths)
  have "\<exists>k < 10 ^ 1. (1 :: rat) = of_nat k"
    by (rule exI [of _ 1]) simp
  then have "\<forall>x \<in> set (1 # replicate (n - 1) (1 :: rat)).
      \<exists>k < 10 ^ element_length ''chordArrays''. x = of_nat k"
    by (simp add: element_lengths)
  then have "length (compress_array ''chordArrays'' (1 # replicate (n - 1) 1))
      = (element_length ''chordArrays'' * length (1 # replicate (n - 1) (1 :: rat)) + 6) div 7"
    by (intro length_compress_array) (simp_all add: element_lengths)
  with assms show "length (compress_array ''chordArrays'' (1 # replicate (n - 1) 1))
      = (n + 6) div 7"
    by (simp add: element_lengths)
qed

lemma convertMidi_long_song:
  fixes n :: nat
  assumes n: "0 < n" "n \<le> MAX_TOTAL_ARRAY_ELEMENTS"
  defines "arrays \<equiv> \<lparr>pitchArrays = 36 # replicate (n - 1) 36,
      timeArrays = 0 # replicate (n - 1) 1000,
      chordArrays = 1 # replicate (n - 1) (1 :: rat)\<rparr>"
  shows "array_info.owArrays (fst (convertToArray
      (chords (readMidiData (long_song n) DEFAULT_SETTINGS)) True)) = arrays"
    and "snd (convertMidi (long_song n) [] True)
      = [LogNumber n, LogArrays (fst (compressSongArrays arrays))]"
    and "length (pitchArrays (fst (compressSongArrays arrays))) = (2 * n + 6) div 7"
    and "length (timeArrays (fst (compressSongArrays arrays))) = (4 * n + 6) div 7"
    and "length (chordArrays (fst (compressSongArrays arrays))) = (n + 6) div 7"
proof -
  have read: "chords (readMidiData (long_song n) DEFAULT_SETTINGS) = map one_note_chord [0..<n]"
    using n(1) by (rule readMidiData_long_song)
  have build: "convertToArray (map one_note_chord [0..<n]) True
    = (\<lparr>array_info.owArrays = arrays,
        array_info.stopTime = Some (of_nat (n - 1))\<rparr>, [LogNumber n])"
    unfolding arrays_def using n by (rule convertToArray_long_song)
  have len: "length (map one_note_chord [0..<n]) \<noteq> 0"
    using n(1) by simp
  have s: "settings_in_force [] = DEFAULT_SETTINGS"
    by (simp add: settings_in_force_def CONVERTER_SETTINGS_INFO_def)
  show "array_info.owArrays (fst (convertToArray
      (chords (readMidiData (long_song n) DEFAULT_SETTINGS)) True)) = arrays"
    by (simp only: read build fst_conv array_info.simps)
  show "snd (convertMidi (long_song n) [] True)
      = [LogNumber n, LogArrays (fst (compressSongArrays arrays))]"
    unfolding convertMidi_def s Let_def read
    by (simp only: build prod.case fst_conv snd_conv len if_True simp_thms
        compressSongArrays_def Let_def array_info.simps append.simps)
  show "length (pitchArrays (fst (compressSongArrays arrays))) = (2 * n + 6) div 7"
    unfolding arrays_def
    by (simp only: compressSongArrays_def Let_def fst_conv song_arrays.simps
        compress_long_song [OF n(1)])
  show "length (timeArrays (fst (compressSongArrays arrays))) = (4 * n + 6) div 7"
    unfolding arrays_def
    by (simp only: compressSongArrays_def Let_def fst_conv song_arrays.simps
        compress_long_song [OF n(1)])
  show "length (chordArrays (fst (compressSongArrays arrays))) = (n + 6) div 7"
    unfolding arrays_def
    by (simp only: compressSongArrays_def Let_def fst_conv song_arrays.simps
        compress_long_song [OF n(1)])
qed

text \<open>
  Claim C2 fails on the code when compression is enabled.  The array builder compares the
  maximum with an estimate, the digits of all three arrays together divided by seven and
  rounded up, but each array is compressed on its own and its last element is rounded up on
  its own.  For a song of 9000 chords of one pitch each the estimate is 9000, so that no
  chord is left out, and the three compressed arrays have 2572, 5143 and 1286 elements:
  9001 in all.
\<close>

theorem compressed_total_over_maximum:
  "snd (convertMidi (long_song 9000) [] True)
     = [LogNumber 9000,
        LogArrays (fst (compressSongArrays (array_info.owArrays (fst (convertToArray
          (chords (readMidiData (long_song 9000) DEFAULT_SETTINGS)) True)))))] \<and>
   length (pitchArrays (fst (compressSongArrays (array_info.owArrays (fst (convertToArray
          (chords (readMidiData (long_song 9000) DEFAULT_SETTINGS)) True)))))) = 2572 \<and>
   length (timeArrays (fst (compressSongArrays (array_info.owArrays (fst (convertToArray
          (chords (readMidiData (long_song 9000) DEFAULT_SETTINGS)) True)))))) = 5143 \<and>
   length (chordArrays (fst (compressSongArrays (array_info.owArrays (fst (convertToArray
          (chords (readMidiData (long_song 9000) DEFAULT_SETTINGS)) True)))))) = 1286 \<and>
   total_elements (fst (compressSongArrays (array_info.owArrays (fst (convertToArray
          (chords (readMidiData (long_song 9000) DEFAULT_SETTINGS)) True))))) = 9001 \<and>
   MAX_TOTAL_ARRAY_ELEMENTS = 9000"
proof -
  have n: "0 < (9000 :: nat)" "9000 \<le> MAX_TOTAL_ARRAY_ELEMENTS"
    by (simp_all add: MAX_TOTAL_ARRAY_ELEMENTS_def)
  note facts = convertMidi_long_song [OF n]
  have p: "(2 * 9000 + 6) div 7 = (2572 :: nat)" and t: "(4 * 9000 + 6) div 7 = (5143 :: nat)"
    and c: "(9000 + 6) div 7 = (1286 :: nat)"
    by simp_all
  have sum: "2572 + 5143 + 1286 = (9001 :: nat)"
    by simp
  show ?thesis
    unfolding facts(1) total_elements_def
    using facts(2-5)
    by (simp only: p t c sum MAX_TOTAL_ARRAY_ELEMENTS_def simp_thms)
qed

end
